theory Spec2Isabelle
  imports Main "HOL-Library.Multiset"
begin

section \<open>JavaScript strings\<close>

text \<open>
  A JavaScript string is a sequence of UTF-16 code units; \<open>length\<close>, \<open>slice\<close>,
  \<open>substring\<close> and the regular expressions of the sources (none has the \<open>u\<close> flag)
  all count code units.  A code unit is modelled as a natural number.
\<close>

type_synonym jsstring = "nat list"

definition str :: "string \<Rightarrow> jsstring" where
  \<comment> \<open>an ASCII literal of the source\<close>
  "str s = map of_char s"

definition isWhiteSpace :: "nat \<Rightarrow> bool" where
  \<comment> \<open>WhiteSpace and LineTerminator of ECMAScript: what \<open>trim\<close> strips and \<open>\s\<close> matches\<close>
  "isWhiteSpace c =
     (c = 9 \<or> c = 10 \<or> c = 11 \<or> c = 12 \<or> c = 13 \<or> c = 32 \<or> c = 160 \<or> c = 5760
      \<or> (8192 \<le> c \<and> c \<le> 8202) \<or> c = 8232 \<or> c = 8233 \<or> c = 8239 \<or> c = 8287
      \<or> c = 12288 \<or> c = 65279)"

definition isDigit :: "nat \<Rightarrow> bool" where
  "isDigit c = (48 \<le> c \<and> c \<le> 57)"

definition isLineTerminator :: "nat \<Rightarrow> bool" where
  "isLineTerminator c = (c = 10 \<or> c = 13 \<or> c = 8232 \<or> c = 8233)"

definition trimStart :: "jsstring \<Rightarrow> jsstring" where
  "trimStart s = dropWhile isWhiteSpace s"

definition trimEnd :: "jsstring \<Rightarrow> jsstring" where
  "trimEnd s = rev (dropWhile isWhiteSpace (rev s))"

definition trim :: "jsstring \<Rightarrow> jsstring" where
  "trim s = trimEnd (trimStart s)"

definition slice :: "'a list \<Rightarrow> nat \<Rightarrow> nat \<Rightarrow> 'a list" where
  \<comment> \<open>\<open>xs.slice(i, j)\<close> for non-negative \<open>i\<close>, \<open>j\<close>: out-of-range bounds are clamped\<close>
  "slice xs i j = take (j - i) (drop i xs)"

definition substring :: "jsstring \<Rightarrow> nat \<Rightarrow> nat \<Rightarrow> jsstring" where
  \<comment> \<open>\<open>s.substring(i, j)\<close>: the bounds are clamped and swapped when \<open>i > j\<close>\<close>
  "substring s i j = take (max i j - min i j) (drop (min i j) s)"

definition sliceLast :: "'a list \<Rightarrow> nat \<Rightarrow> 'a list" where
  \<comment> \<open>\<open>xs.slice(-n)\<close>: the last \<open>n\<close> elements, all of them when there are fewer\<close>
  "sliceLast xs n = drop (length xs - n) xs"

fun startsWith :: "jsstring \<Rightarrow> jsstring \<Rightarrow> bool" where
  "startsWith s [] = True"
| "startsWith [] (p # ps) = False"
| "startsWith (c # cs) (p # ps) = (c = p \<and> startsWith cs ps)"

fun includes_js :: "jsstring \<Rightarrow> jsstring \<Rightarrow> bool" where
  "includes_js [] p = (p = [])"
| "includes_js (c # cs) p = (startsWith (c # cs) p \<or> includes_js cs p)"

definition endsWith :: "jsstring \<Rightarrow> jsstring \<Rightarrow> bool" where
  "endsWith s p = startsWith (rev s) (rev p)"

fun splitOn :: "jsstring \<Rightarrow> jsstring \<Rightarrow> jsstring \<Rightarrow> jsstring list" where
  \<comment> \<open>\<open>s.split(sep)\<close> for a non-empty literal separator; the second argument
      accumulates the current piece\<close>
  "splitOn sep cur [] = [cur]"
| "splitOn sep cur (c # cs) =
     (if startsWith (c # cs) sep
      then cur # splitOn sep [] (drop (length sep - 1) cs)
      else splitOn sep (cur @ [c]) cs)"

fun joinWith :: "jsstring \<Rightarrow> jsstring list \<Rightarrow> jsstring" where
  "joinWith sep [] = []"
| "joinWith sep [x] = x"
| "joinWith sep (x # y # ys) = x @ sep @ joinWith sep (y # ys)"

fun splitWhiteSpace :: "bool \<Rightarrow> jsstring \<Rightarrow> jsstring \<Rightarrow> jsstring list" where
  \<comment> \<open>\<open>s.split(/\s+/)\<close>: the pieces between maximal runs of white space; the flag
      says that the scan is inside such a run, the second argument is the current piece\<close>
  "splitWhiteSpace inRun cur [] = [cur]"
| "splitWhiteSpace inRun cur (c # cs) =
     (if isWhiteSpace c
      then (if inRun then splitWhiteSpace True cur cs else cur # splitWhiteSpace True [] cs)
      else splitWhiteSpace False (cur @ [c]) cs)"

text \<open>
  Case mapping.  The sources lower-case a text before a search for Cyrillic keywords and
  match case-insensitive regular expressions, whose canonical form of a code unit is its
  upper case.  The letters of the patterns and keywords are Basic Latin and Cyrillic
  letters of U+0410..U+044F.  The mapping is written out on the code units whose image
  is such a letter: Basic Latin, the Cyrillic block U+0400..U+045F and, for the
  canonical form, the seven letters U+1C80..U+1C86, whose upper cases are Cyrillic
  capitals.  The other code units are left as they are, which no comparison with a
  letter of a pattern or a keyword can tell from the mapping of JavaScript.
\<close>

definition toLowerUnit :: "nat \<Rightarrow> nat" where
  "toLowerUnit c =
     (if 65 \<le> c \<and> c \<le> 90 then c + 32
      else if 1040 \<le> c \<and> c \<le> 1071 then c + 32
      else if 1024 \<le> c \<and> c \<le> 1039 then c + 80
      else c)"

definition canonicalize :: "nat \<Rightarrow> nat" where
  "canonicalize c =
     (if 97 \<le> c \<and> c \<le> 122 then c - 32
      else if 1072 \<le> c \<and> c \<le> 1103 then c - 32
      else if 1104 \<le> c \<and> c \<le> 1119 then c - 80
      else if 7296 \<le> c \<and> c \<le> 7302
      then [1042, 1044, 1054, 1057, 1058, 1058, 1066] ! (c - 7296)
      else c)"

definition toLowerCase :: "jsstring \<Rightarrow> jsstring" where
  "toLowerCase s = map toLowerUnit s"

fun parseDigits :: "nat \<Rightarrow> jsstring \<Rightarrow> nat" where
  \<comment> \<open>\<open>parseInt(s, 10)\<close> on a string of decimal digits\<close>
  "parseDigits acc [] = acc"
| "parseDigits acc (c # cs) = parseDigits (10 * acc + (c - 48)) cs"

section \<open>Regular expressions\<close>

text \<open>
  The patterns of the sources use literals, classes, the anchors \<open>^\<close> and \<open>$\<close> (never
  with the \<open>m\<close> flag), alternation, and the greedy quantifiers \<open>*\<close>, \<open>+\<close>, \<open>?\<close> and
  \<open>{0,n}\<close>.  A position of the matcher is the rest of the text, together with whether
  it is the start of the text.  A pattern matched at a position yields the positions at
  which its matches end, in the order in which a backtracking matcher finds them: the
  head of the list is the match that JavaScript reports.
\<close>

datatype regex =
    Atom "nat \<Rightarrow> bool"
  | Bol
  | Eol
  | Eps
  | Seq regex regex
  | Alt regex regex
  | Star regex
  | Upto nat regex

type_synonym position = "bool \<times> jsstring"

fun repeatEnds :: "(position \<Rightarrow> position list) \<Rightarrow> nat \<Rightarrow> position \<Rightarrow> position list" where
  \<comment> \<open>at most \<open>k\<close> greedy iterations of a body: one more iteration is tried before
      stopping; an iteration that consumes nothing is rejected, as by ECMAScript's
      RepeatMatcher\<close>
  "repeatEnds body k pos =
     (if k = 0 then [pos]
      else concat (map (repeatEnds body (k - 1))
                    (filter (\<lambda>e. snd e \<noteq> snd pos) (body pos))) @ [pos])"

declare repeatEnds.simps [simp del]

primrec ends :: "regex \<Rightarrow> position \<Rightarrow> position list" where
  "ends (Atom p) pos =
     (case snd pos of [] \<Rightarrow> [] | c # cs \<Rightarrow> if p c then [(False, cs)] else [])"
| "ends Bol pos = (if fst pos then [pos] else [])"
| "ends Eol pos = (if snd pos = [] then [pos] else [])"
| "ends Eps pos = [pos]"
| "ends (Seq a b) pos = concat (map (ends b) (ends a pos))"
| "ends (Alt a b) pos = ends a pos @ ends b pos"
| "ends (Star a) pos = repeatEnds (ends a) (length (snd pos)) pos"
| "ends (Upto n a) pos = repeatEnds (ends a) n pos"

fun execFrom :: "regex \<Rightarrow> nat \<Rightarrow> bool \<Rightarrow> jsstring \<Rightarrow> (nat \<times> nat) option" where
  \<comment> \<open>tries the start positions in turn: \<open>i\<close> is the index of the rest \<open>s\<close> of the
      text; a match that leaves \<open>rest\<close> ends at index \<open>i + (length s - length rest)\<close>\<close>
  "execFrom r i atStart s =
     (case ends r (atStart, s) of
        e # _ \<Rightarrow> Some (i, i + (length s - length (snd e)))
      | [] \<Rightarrow> (case s of [] \<Rightarrow> None | c # cs \<Rightarrow> execFrom r (Suc i) False cs))"

declare execFrom.simps [simp del]

definition exec :: "regex \<Rightarrow> jsstring \<Rightarrow> (nat \<times> nat) option" where
  \<comment> \<open>\<open>text.match(pattern)\<close> without the \<open>g\<close> flag: \<open>match.index\<close> and the index
      just after \<open>match[0]\<close>, or None for \<open>null\<close>\<close>
  "exec r t = execFrom r 0 True t"

definition test :: "regex \<Rightarrow> jsstring \<Rightarrow> bool" where
  "test r t = (exec r t \<noteq> None)"

definition lit :: "nat \<Rightarrow> regex" where
  "lit c = Atom (\<lambda>x. x = c)"

definition liti :: "nat \<Rightarrow> regex" where
  \<comment> \<open>a literal under the \<open>i\<close> flag\<close>
  "liti c = Atom (\<lambda>x. canonicalize x = canonicalize c)"

fun word :: "jsstring \<Rightarrow> regex" where
  "word [] = Eps"
| "word [c] = lit c"
| "word (c # cs) = Seq (lit c) (word cs)"

fun wordi :: "jsstring \<Rightarrow> regex" where
  "wordi [] = Eps"
| "wordi [c] = liti c"
| "wordi (c # cs) = Seq (liti c) (wordi cs)"

definition oneOrMore :: "regex \<Rightarrow> regex" where
  \<comment> \<open>\<open>a+\<close> for a body that consumes input\<close>
  "oneOrMore a = Seq a (Star a)"

definition space :: regex where "space = Atom isWhiteSpace"
definition digit :: regex where "digit = Atom isDigit"
definition anyUnit :: regex where "anyUnit = Atom (\<lambda>x. True)"
definition dot :: regex where "dot = Atom (\<lambda>x. \<not> isLineTerminator x)"

section \<open>The schemas module\<close>

record inputLaw =
  title :: jsstring
  date :: jsstring
  link :: jsstring

definition lawIdPattern :: regex where
  \<comment> \<open>\<open>/\/ID\/(\d+)/\<close>\<close>
  "lawIdPattern = Seq (word (str ''/ID/'')) (oneOrMore digit)"

definition extractLawId :: "jsstring \<Rightarrow> jsstring option" where
  \<comment> \<open>the capture group is the part of the match after the four units of \<open>/ID/\<close>\<close>
  "extractLawId url =
     (case exec lawIdPattern url of
        None \<Rightarrow> None
      | Some (i, e) \<Rightarrow> Some (slice url (i + 4) e))"

text \<open>
  An optional property of a JavaScript object is an \<open>option\<close>; \<open>x || d\<close> takes \<open>d\<close>
  when \<open>x\<close> is undefined or falsy (the empty string, zero).
\<close>

record scrapingData =
  sd_actualTitle :: "jsstring option"
  sd_metadata :: "jsstring list option"
  sd_fullText :: "jsstring option"
  sd_error :: "jsstring option"
  sd_retryCount :: "nat option"

record scrapedLaw = inputLaw +
  lawId :: "jsstring option"
  actualTitle :: jsstring
  metadata :: "jsstring list"
  fullText :: jsstring
  textLength :: nat
  scrapedAt :: int
  isComplete :: bool
  error :: "jsstring option"
  retryCount :: nat

definition orEmpty :: "jsstring option \<Rightarrow> jsstring" where
  \<comment> \<open>\<open>x || ''\<close>\<close>
  "orEmpty x = (case x of None \<Rightarrow> [] | Some s \<Rightarrow> s)"

definition truthy :: "jsstring option \<Rightarrow> bool" where
  "truthy x = (case x of None \<Rightarrow> False | Some s \<Rightarrow> s \<noteq> [])"

definition createScrapedLaw :: "int \<Rightarrow> inputLaw \<Rightarrow> scrapingData \<Rightarrow> scrapedLaw" where
  \<comment> \<open>the first argument is the clock read by \<open>new Date()\<close>, in milliseconds\<close>
  "createScrapedLaw now law sd =
     \<lparr> title = title law,
       date = date law,
       link = link law,
       lawId = extractLawId (link law),
       actualTitle = orEmpty (sd_actualTitle sd),
       metadata = (case sd_metadata sd of None \<Rightarrow> [] | Some m \<Rightarrow> m),
       fullText = orEmpty (sd_fullText sd),
       textLength = length (orEmpty (sd_fullText sd)),
       scrapedAt = now,
       isComplete = (truthy (sd_fullText sd) \<and> length (orEmpty (sd_fullText sd)) > 50),
       error = (if truthy (sd_error sd) then sd_error sd else None),
       retryCount = (case sd_retryCount sd of None \<Rightarrow> 0 | Some n \<Rightarrow> n) \<rparr>"

datatype errorMessage =
    StepFailed jsstring
  | InsufficientContent nat
  | SaveFailed jsstring
  | UnknownError

text \<open>
  The message of a failure: of a step of the browser session that threw, of the
  completeness check (with the length of the text), of the write of the record file, or
  the default of the source when no error was caught.
\<close>

record failedLaw =
  f_lawId :: "jsstring option"
  f_link :: jsstring
  f_title :: jsstring
  f_error :: errorMessage
  f_retryCount :: nat
  f_failedAt :: int
  f_batchId :: jsstring

definition createFailedLaw ::
  "int \<Rightarrow> inputLaw \<Rightarrow> errorMessage \<Rightarrow> nat \<Rightarrow> jsstring \<Rightarrow> failedLaw" where
  "createFailedLaw now law err retries batchId =
     \<lparr> f_lawId = extractLawId (link law),
       f_link = link law,
       f_title = title law,
       f_error = err,
       f_retryCount = retries,
       f_failedAt = now,
       f_batchId = batchId \<rparr>"

section \<open>The batch processor\<close>

record bpOptions =
  batchSize :: nat
  sortOrder :: jsstring
  strategy :: jsstring
  totalWorkers :: "nat option"

record 'a batch =
  batchIndex :: nat
  laws :: "'a list"
  size_b :: nat
  startIndex :: nat
  endIndex :: nat
  year :: "nat option"
  subBatch :: "nat option"

text \<open>
  The loop of \<open>createBatchesBySize\<close> advances its index by the batch size and never
  ends when that is zero: the result is an \<open>option\<close>, None when the loop does not return.
\<close>

partial_function (option) bySizeLoop ::
  "nat \<Rightarrow> 'a list \<Rightarrow> nat \<Rightarrow> 'a batch list \<Rightarrow> 'a batch list option" where
  "bySizeLoop bs ls i batches =
     (if i < length ls
      then bySizeLoop bs ls (i + bs)
             (batches @
               [\<lparr> batchIndex = length batches,
                  laws = slice ls i (i + bs),
                  size_b = length (slice ls i (i + bs)),
                  startIndex = i,
                  endIndex = min (i + bs) (length ls),
                  year = None,
                  subBatch = None \<rparr>])
      else Some batches)"

declare bySizeLoop.simps [code]

definition createBatchesBySize :: "bpOptions \<Rightarrow> 'a list \<Rightarrow> 'a batch list option" where
  "createBatchesBySize opts ls = bySizeLoop (batchSize opts) ls 0 []"

definition createEqualSizeBatches :: "bpOptions \<Rightarrow> 'a list \<Rightarrow> 'a batch list option" where
  \<comment> \<open>the source computes \<open>Math.ceil(laws.length / totalWorkers)\<close> and passes it as a
      second argument to \<open>createBatchesBySize\<close>, which declares one parameter only and
      reads \<open>this.options.batchSize\<close>: the computed size is dropped\<close>
  "createEqualSizeBatches opts ls =
     (let workers = (case totalWorkers opts of None \<Rightarrow> 10 | Some w \<Rightarrow> if w = 0 then 10 else w);
          equalSize = (length ls + workers - 1) div workers
      in createBatchesBySize opts ls)"

definition yearPattern :: regex where
  \<comment> \<open>\<open>/(\d{4})/\<close>\<close>
  "yearPattern = Seq digit (Seq digit (Seq digit digit))"

definition estimateYear :: "nat \<Rightarrow> nat" where
  "estimateYear n =
     (if n \<ge> 166000 then 2025
      else if n \<ge> 165000 then 2024
      else if n \<ge> 164000 then 2023
      else if n \<ge> 163000 then 2022
      else if n \<ge> 162000 then 2021
      else if n \<ge> 161000 then 2020
      else if n \<ge> 160000 then 2019
      else if n \<ge> 159000 then 2018
      else if n \<ge> 158000 then 2017
      else 2016)"

definition yearFromTitle :: "jsstring \<Rightarrow> nat option" where
  "yearFromTitle t =
     (case exec yearPattern t of
        None \<Rightarrow> None
      | Some (i, e) \<Rightarrow>
          (let y = parseDigits 0 (slice t i e)
           in if y \<ge> 2016 \<and> y \<le> 2030 then Some y else None))"

definition extractYearFromLaw :: "inputLaw \<Rightarrow> nat" where
  "extractYearFromLaw law =
     (case yearFromTitle (title law) of
        Some y \<Rightarrow> y
      | None \<Rightarrow>
          (case extractLawId (link law) of
             Some ident \<Rightarrow> (if ident \<noteq> [] then estimateYear (parseDigits 0 ident) else 2025)
           | None \<Rightarrow> 2025))"

text \<open>
  The \<open>Map\<close> from a year to its laws keeps the keys in insertion order: an association
  list, to which \<open>mapPush\<close> adds an item under its key.
\<close>

fun mapPush :: "('k \<times> 'v list) list \<Rightarrow> 'k \<Rightarrow> 'v \<Rightarrow> ('k \<times> 'v list) list" where
  "mapPush [] k x = [(k, [x])]"
| "mapPush ((k', vs) # m) k x =
     (if k' = k then (k', vs @ [x]) # m else (k', vs) # mapPush m k x)"

definition groupByYear :: "('a \<Rightarrow> nat) \<Rightarrow> 'a list \<Rightarrow> (nat \<times> ('a \<times> nat) list) list" where
  \<comment> \<open>every law is stored with its index in the worklist\<close>
  "groupByYear yearOf ls =
     foldl (\<lambda>m (law, idx). mapPush m (yearOf law) (law, idx)) [] (zip ls [0..<length ls])"

definition sortYears :: "jsstring \<Rightarrow> nat list \<Rightarrow> nat list" where
  \<comment> \<open>the keys of a map are distinct, so the comparator sort is the sorted list of
      the keys, reversed for \<open>desc\<close>\<close>
  "sortYears order ys = (if order = str ''desc'' then rev (sort ys) else sort ys)"

text \<open>
  The sub-batch loop reads \<open>subBatch[0].originalIndex\<close>; with a batch size of zero the
  slice is empty and the read throws.  None is the thrown TypeError.
\<close>

function subBatchLoop ::
  "nat \<Rightarrow> nat \<Rightarrow> ('a \<times> nat) list \<Rightarrow> nat \<Rightarrow> 'a batch list \<Rightarrow> 'a batch list option" where
  "subBatchLoop bs y yearLaws i batches =
     (if i < length yearLaws
      then (case slice yearLaws i (i + bs) of
              [] \<Rightarrow> None
            | item # items \<Rightarrow>
                subBatchLoop bs y yearLaws (i + bs)
                  (batches @
                    [\<lparr> batchIndex = length batches,
                       laws = map fst (item # items),
                       size_b = length (item # items),
                       startIndex = snd item,
                       endIndex = snd (last (item # items)) + 1,
                       year = Some y,
                       subBatch = Some (i div bs + 1) \<rparr>]))
      else Some batches)"
  by pat_completeness auto
termination
proof (relation "measure (\<lambda>(bs, y, yearLaws, i, batches). length yearLaws - i)", goal_cases)
  case 1
  show ?case by simp
next
  case (2 bs y yearLaws i batches item items)
  then have "bs \<noteq> 0"
    by (cases bs) (auto simp: slice_def)
  with 2 show ?case by auto
qed

definition yearBatches ::
  "nat \<Rightarrow> nat \<Rightarrow> ('a \<times> nat) list \<Rightarrow> 'a batch list \<Rightarrow> 'a batch list option" where
  "yearBatches bs y yearLaws batches =
     (if length yearLaws > bs
      then subBatchLoop bs y yearLaws 0 batches
      else (case yearLaws of
              [] \<Rightarrow> None
            | item # items \<Rightarrow>
                Some (batches @
                  [\<lparr> batchIndex = length batches,
                     laws = map fst yearLaws,
                     size_b = length yearLaws,
                     startIndex = snd item,
                     endIndex = snd (last yearLaws) + 1,
                     year = Some y,
                     subBatch = None \<rparr>])))"

fun yearsLoop ::
  "nat \<Rightarrow> (nat \<times> ('a \<times> nat) list) list \<Rightarrow> nat list \<Rightarrow> 'a batch list \<Rightarrow> 'a batch list option" where
  "yearsLoop bs groups [] batches = Some batches"
| "yearsLoop bs groups (y # ys) batches =
     (case map_of groups y of
        None \<Rightarrow> None
      | Some yearLaws \<Rightarrow>
          (case yearBatches bs y yearLaws batches of
             None \<Rightarrow> None
           | Some batches' \<Rightarrow> yearsLoop bs groups ys batches'))"

definition createBatchesByYearWith ::
  "('a \<Rightarrow> nat) \<Rightarrow> bpOptions \<Rightarrow> 'a list \<Rightarrow> 'a batch list option" where
  "createBatchesByYearWith yearOf opts ls =
     (let groups = groupByYear yearOf ls
      in yearsLoop (batchSize opts) groups (sortYears (sortOrder opts) (map fst groups)) [])"

definition createBatchesByYear :: "bpOptions \<Rightarrow> inputLaw list \<Rightarrow> inputLaw batch list option" where
  "createBatchesByYear opts ls = createBatchesByYearWith extractYearFromLaw opts ls"

definition createBatchesByStrategy ::
  "bpOptions \<Rightarrow> inputLaw list \<Rightarrow> inputLaw batch list option" where
  "createBatchesByStrategy opts ls =
     (if strategy opts = str ''year'' then createBatchesByYear opts ls
      else if strategy opts = str ''equal'' then createEqualSizeBatches opts ls
      else createBatchesBySize opts ls)"

section \<open>The text validator\<close>

datatype severity = SevNone | Low | Medium | High | Critical

datatype issue =
    no_full_text | extremely_short | very_short | ends_with_table_data | suspicious_ending
  | truncated | encoding_issues | poor_structure | no_law_content

record validationResult =
  isValid :: bool
  issues :: "issue list"
  severity :: severity
  recommendations :: "string list"

text \<open>
  The pattern tables of the constructor.  Cyrillic literals are written as their code
  units; every pattern of the first table has the \<open>i\<close> flag.
\<close>

definition validEndingPatterns :: "regex list" where
  "validEndingPatterns =
     [ \<comment> \<open>article endings: the abbreviation, white space, digits, the rest of the line, the end\<close>
       Seq (wordi [1095, 1083, 46])
         (Seq (Star space) (Seq (oneOrMore digit) (Seq (Star dot) Eol))),
       \<comment> \<open>paragraph endings, of the same shape\<close>
       Seq (wordi [1087, 1072, 1088, 1072, 1075, 1088, 1072, 1092])
         (Seq (Star space) (Seq (oneOrMore digit) (Seq (Star dot) Eol))),
       \<comment> \<open>comes into force\<close>
       wordi [1074, 1083, 1080, 1079, 1072, 32, 1074, 32, 1089, 1080, 1083, 1072],
       \<comment> \<open>is repealed\<close>
       wordi [1086, 1090, 1084, 1077, 1085, 1103, 32, 1089, 1077],
       \<comment> \<open>is amended\<close>
       wordi [1076, 1086, 1087, 1098, 1083, 1074, 1072, 32, 1089, 1077],
       \<comment> \<open>is changed\<close>
       wordi [1080, 1079, 1084, 1077, 1085, 1103, 32, 1089, 1077],
       \<comment> \<open>this law\<close>
       wordi [1085, 1072, 1089, 1090, 1086, 1103, 1097, 1080, 1103, 32,
              1079, 1072, 1082, 1086, 1085],
       \<comment> \<open>published ... Official Gazette, on one line\<close>
       Seq (wordi [1087, 1091, 1073, 1083, 1080, 1082, 1091, 1074, 1072])
         (Seq (Star dot)
           (wordi [1076, 1098, 1088, 1078, 1072, 1074, 1077, 1085, 32,
                   1074, 1077, 1089, 1090, 1085, 1080, 1082])),
       \<comment> \<open>are repealed\<close>
       wordi [1086, 1090, 1084, 1077, 1085, 1103, 1090, 32, 1089, 1077],
       \<comment> \<open>in force from\<close>
       wordi [1074, 32, 1089, 1080, 1083, 1072, 32, 1086, 1090],
       \<comment> \<open>is deleted\<close>
       wordi [1079, 1072, 1083, 1080, 1095, 1072, 1074, 1072, 32, 1089, 1077],
       \<comment> \<open>is added\<close>
       wordi [1076, 1086, 1073, 1072, 1074, 1103, 32, 1089, 1077],
       \<comment> \<open>is preserved\<close>
       wordi [1079, 1072, 1087, 1072, 1079, 1074, 1072, 32, 1089, 1077] ]"

definition numberClass :: "nat \<Rightarrow> bool" where
  \<comment> \<open>the class of white space, digits, full stop, comma and hyphen\<close>
  "numberClass c = (isWhiteSpace c \<or> isDigit c \<or> c = 46 \<or> c = 44 \<or> c = 45)"

definition cyrillicOrSpace :: "nat \<Rightarrow> bool" where
  \<comment> \<open>the class of the small Cyrillic letters U+0430..U+044F and \<open>\s\<close> under the
      \<open>i\<close> flag: the canonical form lies in U+0410..U+042F\<close>
  "cyrillicOrSpace c =
     ((1040 \<le> canonicalize c \<and> canonicalize c \<le> 1071) \<or> isWhiteSpace c)"

definition digitOrSpace :: "nat \<Rightarrow> bool" where
  \<comment> \<open>\<open>[\d\s]\<close>\<close>
  "digitOrSpace c = (isDigit c \<or> isWhiteSpace c)"

definition lead :: "regex \<Rightarrow> regex" where
  \<comment> \<open>\<open>^\s*\<close> before a pattern\<close>
  "lead r = Seq Bol (Seq (Star space) r)"

definition invalidEndingPatterns :: "regex list" where
  "invalidEndingPatterns =
     [ \<comment> \<open>just numbers and spaces: digits, then one or more of the number class\<close>
       lead (Seq (oneOrMore digit) (Seq (oneOrMore (Atom numberClass)) Eol)),
       \<comment> \<open>numbers at the end: the number class, digits, white space\<close>
       lead (Seq (Star (Atom numberClass)) (Seq (oneOrMore digit) (Seq (Star space) Eol))),
       \<comment> \<open>numbers with few Cyrillic letters between them\<close>
       lead (Seq (oneOrMore digit) (Seq (Star space) (Seq (Star (Atom cyrillicOrSpace))
              (Seq (oneOrMore digit) (Seq (Star space) Eol))))),
       \<comment> \<open>project codes: OP- and digits, with the i flag\<close>
       lead (Seq (wordi (str ''OP-'')) (oneOrMore digit)),
       \<comment> \<open>construction codes, i flag\<close>
       lead (wordi [1057, 1052, 1056]),
       \<comment> \<open>engineering entries, i flag\<close>
       lead (wordi [1048, 1085, 1078, 1077, 1085, 1077, 1088, 1080, 1085, 1075]),
       \<comment> \<open>municipality entries, followed by white space, i flag\<close>
       lead (Seq (wordi [1054, 1073, 1097, 1080, 1085, 1072]) (oneOrMore space)),
       \<comment> \<open>region entries, followed by white space, i flag\<close>
       lead (Seq (wordi [1086, 1073, 1083, 1072, 1089, 1090]) (oneOrMore space)),
       \<comment> \<open>just km\<close>
       lead (Seq (word [1082, 1084]) (Seq (Star space) Eol)),
       \<comment> \<open>just meters: digits and spaces, the unit, white space\<close>
       lead (Seq (oneOrMore (Atom digitOrSpace)) (Seq (word [1084]) (Seq (Star space) Eol))),
       \<comment> \<open>just leva: digits and spaces, the unit, white space\<close>
       lead (Seq (oneOrMore (Atom digitOrSpace))
              (Seq (word [1083, 1074]) (Seq (Star space) Eol))) ]"

definition truncationIndicators :: "regex list" where
  "truncationIndicators =
     [ wordi (str ''[TRUNCATED]''),
       wordi (str ''Text truncated from''),
       word (str ''...''),
       \<comment> \<open>the abbreviation of and so on, an optional full stop, white space, the end\<close>
       Seq (wordi [1080, 32, 1090, 46, 1085]) (Seq (Upto 1 (lit 46)) (Seq (Star space) Eol)),
       \<comment> \<open>continues\<close>
       wordi [1087, 1088, 1086, 1076, 1098, 1083, 1078, 1072, 1074, 1072] ]"

definition lawKeywords :: "jsstring list" where
  "lawKeywords =
     [ [1079, 1072, 1082, 1086, 1085],
       [1095, 1083, 1077, 1085],
       [1087, 1072, 1088, 1072, 1075, 1088, 1072, 1092],
       [1072, 1083, 1080, 1085, 1077, 1103],
       [1090, 1086, 1095, 1082, 1072],
       [1080, 1079, 1084, 1077, 1085, 1103],
       [1076, 1086, 1087, 1098, 1083, 1074, 1072] ]"

definition anyMatch :: "regex list \<Rightarrow> jsstring \<Rightarrow> bool" where
  \<comment> \<open>the loops that test the patterns in turn and break at the first match\<close>
  "anyMatch ps t = list_ex (\<lambda>p. test p t) ps"

definition keepCritical :: "severity \<Rightarrow> severity \<Rightarrow> severity" where
  \<comment> \<open>\<open>result.severity === 'critical' ? 'critical' : s\<close>\<close>
  "keepCritical cur s = (if cur = Critical then Critical else s)"

definition flag :: "issue \<Rightarrow> severity \<Rightarrow> string \<Rightarrow> validationResult \<Rightarrow> validationResult" where
  \<comment> \<open>a check that rejects: the tag, the new severity and the recommendation\<close>
  "flag tag sev advice r =
     r\<lparr> isValid := False, issues := issues r @ [tag], severity := sev,
        recommendations := recommendations r @ [advice] \<rparr>"

definition checkLength :: "jsstring \<Rightarrow> validationResult \<Rightarrow> validationResult" where
  "checkLength ft r =
     (if length ft < 100
      then flag extremely_short Critical ''Text too short - likely scraping error'' r
      else if length ft < 500
      then flag very_short High ''Text very short - verify content quality'' r
      else r)"

definition lastLines :: "jsstring \<Rightarrow> jsstring" where
  "lastLines ft =
     (let endingText = trim (sliceLast ft 500)
      in trim (joinWith [10] (sliceLast (splitOn [10] [] endingText) 10)))"

definition checkInvalidEnding :: "jsstring \<Rightarrow> validationResult \<Rightarrow> validationResult" where
  "checkInvalidEnding ft r =
     (if anyMatch invalidEndingPatterns (lastLines ft)
      then flag ends_with_table_data (keepCritical (severity r) High)
             ''Text ends with table/numeric data instead of law content'' r
      else r)"

definition checkSuspiciousEnding :: "jsstring \<Rightarrow> validationResult \<Rightarrow> validationResult" where
  "checkSuspiciousEnding ft r =
     (if \<not> anyMatch validEndingPatterns (lastLines ft)
         \<and> \<not> anyMatch invalidEndingPatterns (lastLines ft)
         \<and> length (splitWhiteSpace False [] (lastLines ft)) < 5
      then flag suspicious_ending (keepCritical (severity r) Medium)
             ''Ending seems incomplete or unusual'' r
      else r)"

definition checkTruncation :: "jsstring \<Rightarrow> validationResult \<Rightarrow> validationResult" where
  "checkTruncation ft r =
     (if anyMatch truncationIndicators ft
      then flag truncated (keepCritical (severity r) High) ''Text appears to be truncated'' r
      else r)"

definition checkEncoding :: "jsstring \<Rightarrow> validationResult \<Rightarrow> validationResult" where
  \<comment> \<open>the class holds the replacement character U+FFFD, twice\<close>
  "checkEncoding ft r =
     (if test (Atom (\<lambda>c. c = 65533)) ft
      then flag encoding_issues (keepCritical (severity r) Medium) ''Text has encoding issues'' r
      else r)"

definition checkStructure :: "jsstring \<Rightarrow> validationResult \<Rightarrow> validationResult" where
  "checkStructure ft r =
     (let paragraphs = filter (\<lambda>p. length (trim p) > 0) (splitOn [10, 10] [] ft)
      in if length paragraphs < 3
         then r\<lparr> issues := issues r @ [poor_structure],
                 severity := (if severity r = SevNone then Low else severity r),
                 recommendations := recommendations r @ [''Text has poor paragraph structure''] \<rparr>
         else r)"

definition checkKeywords :: "jsstring \<Rightarrow> validationResult \<Rightarrow> validationResult" where
  "checkKeywords ft r =
     (if \<not> list_ex (\<lambda>keyword. includes_js (toLowerCase ft) keyword) lawKeywords
      then flag no_law_content (keepCritical (severity r) High)
             ''Text does not contain typical law terminology'' r
      else r)"

definition initialResult :: validationResult where
  "initialResult = \<lparr> isValid = True, issues = [], severity = SevNone, recommendations = [] \<rparr>"

definition validateLawText :: "jsstring option \<Rightarrow> validationResult" where
  \<comment> \<open>the argument is the \<open>fullText\<close> property of the record: the only one that is read\<close>
  "validateLawText fullTextOpt =
     (case fullTextOpt of
        None \<Rightarrow> flag no_full_text Critical ''Complete re-scrape required'' initialResult
      | Some ft \<Rightarrow>
          if ft = []
          then flag no_full_text Critical ''Complete re-scrape required'' initialResult
          else checkKeywords ft (checkStructure ft (checkEncoding ft (checkTruncation ft
                 (checkSuspiciousEnding ft (checkInvalidEnding ft (checkLength ft initialResult)))))))"

text \<open>
  The severity that the specification gives to each issue tag, and the order of the
  severities, for the comparison with the severity the validator reports.
\<close>

fun rank :: "severity \<Rightarrow> nat" where
  "rank SevNone = 0"
| "rank Low = 1"
| "rank Medium = 2"
| "rank High = 3"
| "rank Critical = 4"

fun issueSeverity :: "issue \<Rightarrow> severity" where
  "issueSeverity no_full_text = Critical"
| "issueSeverity extremely_short = Critical"
| "issueSeverity very_short = High"
| "issueSeverity ends_with_table_data = High"
| "issueSeverity suspicious_ending = Medium"
| "issueSeverity truncated = High"
| "issueSeverity encoding_issues = Medium"
| "issueSeverity poor_structure = Low"
| "issueSeverity no_law_content = High"

definition maxIssueRank :: "issue list \<Rightarrow> nat" where
  "maxIssueRank tags = foldr (\<lambda>tag m. max (rank (issueSeverity tag)) m) tags 0"

definition sampleShortText :: jsstring where
  \<comment> \<open>a text of 100 code units: the keyword for law, then 95 times the Cyrillic
      small letter a\<close>
  "sampleShortText =
     [ 1079, 1072, 1082, 1086, 1085, 1072, 1072, 1072, 1072, 1072,
       1072, 1072, 1072, 1072, 1072, 1072, 1072, 1072, 1072, 1072,
       1072, 1072, 1072, 1072, 1072, 1072, 1072, 1072, 1072, 1072,
       1072, 1072, 1072, 1072, 1072, 1072, 1072, 1072, 1072, 1072,
       1072, 1072, 1072, 1072, 1072, 1072, 1072, 1072, 1072, 1072,
       1072, 1072, 1072, 1072, 1072, 1072, 1072, 1072, 1072, 1072,
       1072, 1072, 1072, 1072, 1072, 1072, 1072, 1072, 1072, 1072,
       1072, 1072, 1072, 1072, 1072, 1072, 1072, 1072, 1072, 1072,
       1072, 1072, 1072, 1072, 1072, 1072, 1072, 1072, 1072, 1072,
       1072, 1072, 1072, 1072, 1072, 1072, 1072, 1072, 1072, 1072 ]"

section \<open>The scraper\<close>

record scraperOptions =
  maxRetries :: nat
  delayBetweenRequests :: nat
  concurrency :: nat
  minTextLength :: nat
  maxTextLength :: nat

definition defaultOptions :: scraperOptions where
  "defaultOptions =
     \<lparr> maxRetries = 3, delayBetweenRequests = 2000, concurrency = 3,
       minTextLength = 50, maxTextLength = 1000000 \<rparr>"

subsection \<open>Boundary detection and size limit\<close>

definition lineStart :: "regex \<Rightarrow> regex" where
  \<comment> \<open>the start of the text or a newline, then white space, before a pattern\<close>
  "lineStart r = Seq (Alt Bol (lit 10)) (Seq (Star space) r)"

definition startPatterns :: "regex list" where
  \<comment> \<open>the law heading followed by for or by the numero sign U+2116; the decree heading
      followed by the numero sign; the law heading in small letters: all with the i flag\<close>
  "startPatterns =
     [ lineStart (Seq (wordi [1047, 1040, 1050, 1054, 1053])
         (Seq (oneOrMore space) (Alt (wordi [1047, 1040]) (liti 8470)))),
       lineStart (Seq (wordi [1059, 1050, 1040, 1047]) (Seq (oneOrMore space) (liti 8470))),
       lineStart (Seq (wordi [1047, 1072, 1082, 1086, 1085])
         (Seq (oneOrMore space) (wordi [1079, 1072]))) ]"

definition tailWithin :: "nat \<Rightarrow> regex \<Rightarrow> regex" where
  \<comment> \<open>a pattern, then at most \<open>n\<close> arbitrary code units, then the end of the text\<close>
  "tailWithin n r = Seq r (Seq (Upto n anyUnit) Eol)"

definition endPatterns :: "regex list" where
  \<comment> \<open>chairman, prime minister and issued, each with the i flag, within 200, 200 and
      100 code units of the end of the text\<close>
  "endPatterns =
     [ tailWithin 200 (wordi [1055, 1088, 1077, 1076, 1089, 1077, 1076, 1072, 1090, 1077, 1083]),
       tailWithin 200 (wordi [1052, 1080, 1085, 1080, 1089, 1090, 1098, 1088, 45,
                              1087, 1088, 1077, 1076, 1089, 1077, 1076, 1072, 1090, 1077, 1083]),
       tailWithin 100 (wordi [1048, 1079, 1076, 1072, 1076, 1077, 1085]) ]"

fun firstMatch :: "regex list \<Rightarrow> jsstring \<Rightarrow> (nat \<times> nat) option" where
  \<comment> \<open>the first pattern of the table that matches decides, whatever the later ones find\<close>
  "firstMatch [] t = None"
| "firstMatch (p # ps) t =
     (case exec p t of
        Some m \<Rightarrow> Some m
      | None \<Rightarrow> firstMatch ps t)"

definition findStart :: "jsstring \<Rightarrow> nat" where
  "findStart t = (case firstMatch startPatterns t of None \<Rightarrow> 0 | Some (i, e) \<Rightarrow> i)"

definition findEnd :: "jsstring \<Rightarrow> nat" where
  \<comment> \<open>\<open>match.index + match[0].length\<close>, or the length of the text\<close>
  "findEnd t = (case firstMatch endPatterns t of None \<Rightarrow> length t | Some (i, e) \<Rightarrow> e)"

definition processLawText :: "jsstring \<Rightarrow> jsstring" where
  "processLawText t = (if t = [] then [] else trim (slice t (findStart t) (findEnd t)))"

definition truncationMarker :: jsstring where
  \<comment> \<open>a newline and the marker\<close>
  "truncationMarker = 10 # str ''[TRUNCATED]''"

definition normalizeFullText :: "scraperOptions \<Rightarrow> jsstring \<Rightarrow> jsstring" where
  \<comment> \<open>the end of \<open>extractLawContent\<close>: from the text that the extraction strategies
      found to the \<open>fullText\<close> that is returned\<close>
  "normalizeFullText opts raw =
     (let fullText =
        (if raw \<noteq> []
         then (let processed = processLawText raw
               in if length processed > maxTextLength opts
                  then substring processed 0 (maxTextLength opts) @ truncationMarker
                  else processed)
         else raw)
      in trim fullText)"

subsection \<open>One work item, with retries\<close>

datatype pageResult = Threw jsstring | Extracted scrapingData

text \<open>
  The collaborators of the scraper: what the browser session of each attempt yields for
  a law (an exception of some step, or the data of \<open>extractLawContent\<close>), whether the
  record file can be written, and the clock.
\<close>

record world =
  page :: "inputLaw \<Rightarrow> nat \<Rightarrow> pageResult"
  writable :: "inputLaw \<Rightarrow> nat \<Rightarrow> bool"
  clock :: int

record stats =
  processed :: nat
  successful :: nat
  failed :: nat
  skipped :: nat

datatype event =
    Attempt nat
  | Delay nat
  | Saved "jsstring option"
  | Skipped "jsstring option"
  | LoggedFailure "jsstring option"

text \<open>
  The state that the scraper changes: its counters, the output directory (a record file
  per law identifier), the failure log, and the sequence of its effects so far.
\<close>

record scraperState =
  counters :: stats
  outputDir :: "jsstring option \<rightharpoonup> scrapedLaw"
  failures :: "failedLaw list"
  trace :: "event list"

definition backoff :: "nat \<Rightarrow> nat" where
  \<comment> \<open>\<open>Math.min(1000 * Math.pow(2, attempt - 1), 10000)\<close>\<close>
  "backoff attempt = min (1000 * 2 ^ (attempt - 1)) 10000"

definition tryAttempt ::
  "world \<Rightarrow> inputLaw \<Rightarrow> nat \<Rightarrow> scraperState \<Rightarrow> errorMessage + scraperState" where
  \<comment> \<open>the body of the \<open>try\<close>: Inl is the caught error, Inr the state at \<open>return\<close>\<close>
  "tryAttempt w law attempt st =
     (case page w law attempt of
        Threw msg \<Rightarrow> Inl (StepFailed msg)
      | Extracted sd \<Rightarrow>
          (let scraped = createScrapedLaw (clock w) law (sd\<lparr> sd_retryCount := Some (attempt - 1) \<rparr>)
           in if \<not> isComplete scraped then Inl (InsufficientContent (textLength scraped))
              else if \<not> writable w law attempt then Inl (SaveFailed (str ''write''))
              else Inr (st\<lparr> outputDir := (outputDir st)(lawId scraped \<mapsto> scraped),
                            counters := (counters st)\<lparr> successful := successful (counters st) + 1,
                                                        processed := processed (counters st) + 1 \<rparr>,
                            trace := trace st @ [Saved (lawId scraped)] \<rparr>)))"

definition attemptFails :: "world \<Rightarrow> inputLaw \<Rightarrow> nat \<Rightarrow> bool" where
  \<comment> \<open>the attempts whose \<open>try\<close> body ends in the \<open>catch\<close>: a step throws, the record
      is not complete, or the record file cannot be written\<close>
  "attemptFails w law attempt =
     (case page w law attempt of
        Threw msg \<Rightarrow> True
      | Extracted sd \<Rightarrow>
          \<not> isComplete (createScrapedLaw (clock w) law (sd\<lparr> sd_retryCount := Some (attempt - 1) \<rparr>))
          \<or> \<not> writable w law attempt)"

function retryLoop ::
  "scraperOptions \<Rightarrow> world \<Rightarrow> inputLaw \<Rightarrow> jsstring \<Rightarrow> nat \<Rightarrow> errorMessage option \<Rightarrow> nat
     \<Rightarrow> scraperState \<Rightarrow> scraperState" where
  "retryLoop opts w law batchId attempt lastError retries st =
     (if attempt \<le> maxRetries opts
      then (case tryAttempt w law attempt (st\<lparr> trace := trace st @ [Attempt attempt] \<rparr>) of
              Inr st' \<Rightarrow> st'
            | Inl err \<Rightarrow>
                retryLoop opts w law batchId (attempt + 1) (Some err) attempt
                  (if attempt < maxRetries opts
                   then st\<lparr> trace := trace st @ [Attempt attempt, Delay (backoff attempt)] \<rparr>
                   else st\<lparr> trace := trace st @ [Attempt attempt] \<rparr>))
      else st\<lparr> failures := failures st @
                   [createFailedLaw (clock w) law
                      (case lastError of None \<Rightarrow> UnknownError | Some e \<Rightarrow> e) retries batchId],
                counters := (counters st)\<lparr> failed := failed (counters st) + 1,
                                            processed := processed (counters st) + 1 \<rparr>,
                trace := trace st @ [LoggedFailure (extractLawId (link law))] \<rparr>)"
  by pat_completeness auto
termination
  by (relation "measure (\<lambda>(opts, w, law, batchId, attempt, lastError, retries, st).
                  Suc (maxRetries opts) - attempt)") auto

declare retryLoop.simps [simp del]

definition scrapeSingleLaw ::
  "scraperOptions \<Rightarrow> world \<Rightarrow> jsstring \<Rightarrow> scraperState \<Rightarrow> inputLaw \<Rightarrow> scraperState" where
  "scrapeSingleLaw opts w batchId st law =
     (if outputDir st (extractLawId (link law)) \<noteq> None
      then st\<lparr> counters := (counters st)\<lparr> skipped := skipped (counters st) + 1 \<rparr>,
               trace := trace st @ [Skipped (extractLawId (link law))] \<rparr>
      else retryLoop opts w law batchId 1 None 0 st)"

subsection \<open>The scheduler\<close>

text \<open>
  \<open>processLawsWithConcurrency\<close> starts \<open>concurrency\<close> workers.  A worker claims the
  next item from a shared cursor, runs \<open>scrapeSingleLaw\<close> on it and goes on until the
  cursor has passed the last item; the workers take turns wherever one of them waits for
  the browser, the file system or a delay.

  A worker is idle (about to claim), inside the retry loop of a law (with the loop's
  attempt number, last error and retry count), about to write the failure log that it
  has read and extended, or finished.  A step of the pool is a step of one worker:
  claiming an item whose file exists, which skips it (the check, \<open>fs.existsSync\<close>,
  does not wait); claiming another item, which enters the retry loop; an attempt that
  saves the record; an attempt that fails; the end of an exhausted retry loop, which
  reads the failure log; the write of the extended log, with the counting of the
  failure; the end of the worker.  An attempt is one step, taken when it writes the
  file or fails: before that it changes nothing that another worker reads, and its
  \<open>Attempt\<close> event enters the trace with its end.
\<close>

datatype worker =
  Idle
  | Working inputLaw nat "errorMessage option" nat
  | Logging inputLaw "failedLaw list"
  | Finished

fun held :: "worker \<Rightarrow> inputLaw option" where
  \<comment> \<open>the item that a worker has claimed and not yet left\<close>
  "held (Working law a lastError retries) = Some law"
| "held (Logging law newLog) = Some law"
| "held Idle = None"
| "held Finished = None"

record pool =
  cursor :: nat
  workers :: "worker list"
  shared :: scraperState

definition startPool :: "scraperOptions \<Rightarrow> scraperState \<Rightarrow> pool" where
  "startPool opts st = \<lparr> cursor = 0, workers = replicate (concurrency opts) Idle, shared = st \<rparr>"

inductive poolStep ::
  "scraperOptions \<Rightarrow> world \<Rightarrow> jsstring \<Rightarrow> inputLaw list \<Rightarrow> pool \<Rightarrow> pool \<Rightarrow> bool"
  for opts w batchId ls where
  claimSkip:
    "k < length (workers p) \<Longrightarrow> workers p ! k = Idle \<Longrightarrow> cursor p < length ls \<Longrightarrow>
     outputDir (shared p) (extractLawId (link (ls ! cursor p))) \<noteq> None \<Longrightarrow>
     poolStep opts w batchId ls p
       (p\<lparr> cursor := cursor p + 1,
           shared := scrapeSingleLaw opts w batchId (shared p) (ls ! cursor p) \<rparr>)"
| claimStart:
    "k < length (workers p) \<Longrightarrow> workers p ! k = Idle \<Longrightarrow> cursor p < length ls \<Longrightarrow>
     outputDir (shared p) (extractLawId (link (ls ! cursor p))) = None \<Longrightarrow>
     poolStep opts w batchId ls p
       (p\<lparr> cursor := cursor p + 1,
           workers := (workers p)[k := Working (ls ! cursor p) 1 None 0] \<rparr>)"
| attemptSaved:
    "k < length (workers p) \<Longrightarrow> workers p ! k = Working law a lastError retries \<Longrightarrow>
     a \<le> maxRetries opts \<Longrightarrow>
     tryAttempt w law a ((shared p)\<lparr> trace := trace (shared p) @ [Attempt a] \<rparr>) = Inr st' \<Longrightarrow>
     poolStep opts w batchId ls p
       (p\<lparr> workers := (workers p)[k := Idle], shared := st' \<rparr>)"
| attemptFailed:
    "k < length (workers p) \<Longrightarrow> workers p ! k = Working law a lastError retries \<Longrightarrow>
     a \<le> maxRetries opts \<Longrightarrow>
     tryAttempt w law a ((shared p)\<lparr> trace := trace (shared p) @ [Attempt a] \<rparr>) = Inl err \<Longrightarrow>
     poolStep opts w batchId ls p
       (p\<lparr> workers := (workers p)[k := Working law (a + 1) (Some err) a],
           shared :=
             (if a < maxRetries opts
              then (shared p)\<lparr> trace := trace (shared p) @ [Attempt a, Delay (backoff a)] \<rparr>
              else (shared p)\<lparr> trace := trace (shared p) @ [Attempt a] \<rparr>) \<rparr>)"
| exhausted:
    "k < length (workers p) \<Longrightarrow> workers p ! k = Working law a lastError retries \<Longrightarrow>
     maxRetries opts < a \<Longrightarrow>
     poolStep opts w batchId ls p
       (p\<lparr> workers := (workers p)
             [k := Logging law
                     (failures (shared p) @
                        [createFailedLaw (clock w) law
                           (case lastError of None \<Rightarrow> UnknownError | Some e \<Rightarrow> e)
                           retries batchId])] \<rparr>)"
| logged:
    "k < length (workers p) \<Longrightarrow> workers p ! k = Logging law newLog \<Longrightarrow>
     poolStep opts w batchId ls p
       (p\<lparr> workers := (workers p)[k := Idle],
           shared :=
             (shared p)
               \<lparr> failures := newLog,
                 counters := (counters (shared p))
                    \<lparr> failed := failed (counters (shared p)) + 1,
                      processed := processed (counters (shared p)) + 1 \<rparr>,
                 trace := trace (shared p) @ [LoggedFailure (extractLawId (link law))] \<rparr> \<rparr>)"
| finish:
    "k < length (workers p) \<Longrightarrow> workers p ! k = Idle \<Longrightarrow> length ls \<le> cursor p \<Longrightarrow>
     poolStep opts w batchId ls p (p\<lparr> workers := (workers p)[k := Finished] \<rparr>)"

inductive processLawsWithConcurrency ::
  "scraperOptions \<Rightarrow> world \<Rightarrow> jsstring \<Rightarrow> inputLaw list \<Rightarrow> scraperState \<Rightarrow> scraperState \<Rightarrow> bool"
  for opts w batchId ls st where
  \<comment> \<open>the states in which \<open>Promise.all\<close> over the workers can resolve\<close>
  allFinished:
    "(poolStep opts w batchId ls)\<^sup>*\<^sup>* (startPool opts st) p \<Longrightarrow>
     list_all (\<lambda>x. x = Finished) (workers p) \<Longrightarrow>
     processLawsWithConcurrency opts w batchId ls st (shared p)"

definition processNext ::
  "scraperOptions \<Rightarrow> world \<Rightarrow> jsstring \<Rightarrow> scraperState \<Rightarrow> inputLaw list \<Rightarrow> scraperState" where
  \<comment> \<open>the loop of a worker that is never interrupted: the items one after the other\<close>
  "processNext opts w batchId st ls = foldl (scrapeSingleLaw opts w batchId) st ls"

definition processLaws ::
  "scraperOptions \<Rightarrow> world \<Rightarrow> jsstring \<Rightarrow> scraperState \<Rightarrow> inputLaw list \<Rightarrow> scraperState" where
  \<comment> \<open>the schedule in which one worker does all the work; without workers nothing is
      done\<close>
  "processLaws opts w batchId st ls =
     (if concurrency opts = 0 then st else processNext opts w batchId st ls)"

definition freshState :: "(jsstring option \<rightharpoonup> scrapedLaw) \<Rightarrow> failedLaw list \<Rightarrow> scraperState" where
  \<comment> \<open>a new scraper over an output directory and a failure log\<close>
  "freshState dir log =
     \<lparr> counters = \<lparr> processed = 0, successful = 0, failed = 0, skipped = 0 \<rparr>,
       outputDir = dir, failures = log, trace = [] \<rparr>"

subsection \<open>Sample collaborators\<close>

definition sampleLaw :: inputLaw where
  "sampleLaw =
     \<lparr> title = str ''Law'', date = [],
       link = str ''https://www.parliament.bg/bg/laws/ID/166100'' \<rparr>"

definition sampleData :: scrapingData where
  "sampleData =
     \<lparr> sd_actualTitle = Some (str ''Law''), sd_metadata = Some [],
       sd_fullText = Some sampleShortText, sd_error = None, sd_retryCount = None \<rparr>"

definition failingWorld :: world where
  \<comment> \<open>every attempt times out\<close>
  "failingWorld =
     \<lparr> page = (\<lambda>law attempt. Threw (str ''timeout'')),
       writable = (\<lambda>law attempt. True), clock = 0 \<rparr>"

definition workingWorld :: world where
  \<comment> \<open>every attempt extracts the sample text\<close>
  "workingWorld =
     \<lparr> page = (\<lambda>law attempt. Extracted sampleData),
       writable = (\<lambda>law attempt. True), clock = 0 \<rparr>"

definition flakyWorld :: world where
  \<comment> \<open>the first two attempts time out, the later ones extract the sample text\<close>
  "flakyWorld =
     \<lparr> page = (\<lambda>law attempt. if attempt < 3 then Threw (str ''timeout'') else Extracted sampleData),
       writable = (\<lambda>law attempt. True), clock = 0 \<rparr>"

definition sampleRecord :: scrapedLaw where
  \<comment> \<open>the record of a first successful attempt on the sample law\<close>
  "sampleRecord = createScrapedLaw 0 sampleLaw (sampleData\<lparr> sd_retryCount := Some 0 \<rparr>)"

definition afterFirstRun :: scraperState where
  \<comment> \<open>the state after a run over an empty output directory in which the first attempt
      on the sample law succeeds\<close>
  "afterFirstRun =
     processLaws defaultOptions workingWorld (str ''batch'') (freshState Map.empty []) [sampleLaw]"

definition afterFailedRun :: scraperState where
  \<comment> \<open>the state after a run over an empty output directory in which every attempt on
      the sample law fails\<close>
  "afterFailedRun =
     processLaws defaultOptions failingWorld (str ''batch'') (freshState Map.empty []) [sampleLaw]"

definition afterSecondRun :: scraperState where
  \<comment> \<open>the state after a second run, of a new scraper, over what the failed run left,
      in which the attempts succeed\<close>
  "afterSecondRun =
     processLaws defaultOptions workingWorld (str ''batch'')
       (freshState (outputDir afterFailedRun) (failures afterFailedRun)) [sampleLaw]"

definition scrapedState :: scraperState where
  \<comment> \<open>a new scraper over a directory that holds the record of the sample law\<close>
  "scrapedState = freshState [Some (str ''166100'') \<mapsto> sampleRecord] []"

section \<open>The result aggregator\<close>

text \<open>
  The aggregator reads the files of the output directory whose names end in \<open>.json\<close>.
  A file is its name and its contents; \<open>JSON.parse\<close> is a parameter that yields the
  value of the contents, or None where it throws.  A value is \<open>null\<close>, on which every
  read of a property throws, or it is read as a record, whose timestamp is taken to
  parse.
\<close>

datatype jsonValue = JNull | JRecord scrapedLaw

record aggStats =
  a_total :: nat
  a_successful :: nat
  a_withErrors :: nat
  a_totalTextLength :: nat
  a_minTextLength :: "nat option"  \<comment> \<open>None is \<open>Infinity\<close>\<close>
  a_maxTextLength :: nat
  a_averageTextLength :: nat

record aggMetadata =
  totalScrapedLaws :: nat
  successfulLaws :: nat
  errorLaws :: nat
  failedLawsCount :: nat
  statistics :: aggStats

record aggregatedResult =
  agg_metadata :: aggMetadata
  scrapedLaws :: "jsonValue list"
  failedLaws :: "failedLaw list"

datatype aggError = DirectoryNotFound | FailedLogUnreadable | SortThrew

definition initialStats :: aggStats where
  "initialStats =
     \<lparr> a_total = 0, a_successful = 0, a_withErrors = 0, a_totalTextLength = 0,
       a_minTextLength = None, a_maxTextLength = 0, a_averageTextLength = 0 \<rparr>"

definition processFile ::
  "('c \<Rightarrow> jsonValue option) \<Rightarrow> jsonValue list \<times> aggStats \<Rightarrow> jsstring \<times> 'c
     \<Rightarrow> jsonValue list \<times> aggStats" where
  \<comment> \<open>the body of the loop over the files, with its \<open>try\<close> and \<open>catch\<close>: a parse
      error is caught before the push and the count; the read of \<open>isComplete\<close> on
      \<open>null\<close> throws after them\<close>
  "processFile parse acc file =
     (case acc of (found, st) \<Rightarrow>
        (case parse (snd file) of
           None \<Rightarrow> (found, st\<lparr> a_withErrors := a_withErrors st + 1 \<rparr>)
         | Some JNull \<Rightarrow>
             (found @ [JNull],
              st\<lparr> a_total := a_total st + 1, a_withErrors := a_withErrors st + 1 \<rparr>)
         | Some (JRecord law) \<Rightarrow>
             (if isComplete law \<and> textLength law > 50
              then (found @ [JRecord law],
                    st\<lparr> a_total := a_total st + 1,
                        a_successful := a_successful st + 1,
                        a_totalTextLength := a_totalTextLength st + textLength law,
                        a_minTextLength :=
                          (case a_minTextLength st of
                             None \<Rightarrow> Some (textLength law)
                           | Some m \<Rightarrow> Some (min m (textLength law))),
                        a_maxTextLength := max (a_maxTextLength st) (textLength law) \<rparr>)
              else (found @ [JRecord law],
                    st\<lparr> a_total := a_total st + 1,
                        a_withErrors := a_withErrors st + 1 \<rparr>))))"

definition roundDiv :: "nat \<Rightarrow> nat \<Rightarrow> nat" where
  \<comment> \<open>\<open>Math.round(a / b)\<close> for a positive \<open>b\<close>: halves round up\<close>
  "roundDiv a b = (2 * a + b) div (2 * b)"

definition finishStats :: "aggStats \<Rightarrow> aggStats" where
  "finishStats st =
     (if a_successful st > 0
      then st\<lparr> a_averageTextLength := roundDiv (a_totalTextLength st) (a_successful st),
               a_minTextLength := (case a_minTextLength st of None \<Rightarrow> Some 0 | Some m \<Rightarrow> Some m) \<rparr>
      else st\<lparr> a_minTextLength := Some 0 \<rparr>)"

definition sortKey :: "jsonValue \<Rightarrow> int" where
  \<comment> \<open>newest first: the comparator is \<open>dateB - dateA\<close>; the key of \<open>null\<close> is never
      used\<close>
  "sortKey v = (case v of JRecord law \<Rightarrow> - scrapedAt law | JNull \<Rightarrow> 0)"

definition newestFirst :: "jsonValue list \<Rightarrow> jsonValue list" where
  \<comment> \<open>the stable sort on the scrape timestamps\<close>
  "newestFirst found = sort_key sortKey found"

definition lawFiles :: "(jsstring \<times> 'c) list \<Rightarrow> (jsstring \<times> 'c) list" where
  "lawFiles files = filter (\<lambda>f. endsWith (fst f) (str ''.json'')) files"

definition aggregate ::
  "('c \<Rightarrow> jsonValue option) \<Rightarrow> ('c \<Rightarrow> failedLaw list option) \<Rightarrow> bool
     \<Rightarrow> (jsstring \<times> 'c) list \<Rightarrow> 'c option \<Rightarrow> aggError + aggregatedResult" where
  \<comment> \<open>the parsers of the record files and of the failure log, whether the directory
      exists, its files in the order of \<open>readdir\<close>, and the failure log when it exists.
      The failure log is parsed outside any \<open>try\<close>; so is the sort, whose comparator
      reads \<open>scrapedAt\<close> and is called once there are two values\<close>
  "aggregate parse parseLog dirExists files failedLog =
     (if \<not> dirExists then Inl DirectoryNotFound
      else
        (let (found, counted) = foldl (processFile parse) ([], initialStats) (lawFiles files);
             st = finishStats counted
         in (case (case failedLog of None \<Rightarrow> Some [] | Some c \<Rightarrow> parseLog c) of
               None \<Rightarrow> Inl FailedLogUnreadable
             | Some failedList \<Rightarrow>
                 if JNull \<in> set found \<and> 2 \<le> length found then Inl SortThrew
                 else
                   Inr \<lparr> agg_metadata =
                           \<lparr> totalScrapedLaws = a_total st,
                             successfulLaws = a_successful st,
                             errorLaws = a_withErrors st,
                             failedLawsCount = length failedList,
                             statistics = st \<rparr>,
                         scrapedLaws = newestFirst found,
                         failedLaws = failedList \<rparr>)))"

definition sampleDirectory :: "(jsstring \<times> jsonValue option) list" where
  \<comment> \<open>nine record files and one file that does not parse; the contents of a file are
      given by what \<open>JSON.parse\<close> makes of them\<close>
  "sampleDirectory =
     [ (str ''1.json'', Some (JRecord (sampleRecord\<lparr> lawId := Some (str ''1'') \<rparr>))),
       (str ''2.json'', Some (JRecord (sampleRecord\<lparr> lawId := Some (str ''2'') \<rparr>))),
       (str ''3.json'', Some (JRecord (sampleRecord\<lparr> lawId := Some (str ''3'') \<rparr>))),
       (str ''4.json'', Some (JRecord (sampleRecord\<lparr> lawId := Some (str ''4'') \<rparr>))),
       (str ''5.json'', Some (JRecord (sampleRecord\<lparr> lawId := Some (str ''5'') \<rparr>))),
       (str ''6.json'', Some (JRecord (sampleRecord\<lparr> lawId := Some (str ''6'') \<rparr>))),
       (str ''7.json'', Some (JRecord (sampleRecord\<lparr> lawId := Some (str ''7'') \<rparr>))),
       (str ''8.json'', Some (JRecord (sampleRecord\<lparr> lawId := Some (str ''8'') \<rparr>))),
       (str ''9.json'', Some (JRecord (sampleRecord\<lparr> lawId := Some (str ''9'') \<rparr>))),
       (str ''bad.json'', None) ]"

section \<open>The extraction record\<close>

text \<open>
  C5.  In the record that \<open>createScrapedLaw\<close> builds, the text length is the length
  of the stored text, and the record is complete exactly when the text is non-empty and
  longer than 50 code units.  The bound is the constant 50 of the schemas module: the
  function does not read the scraper's \<open>minTextLength\<close> option.
\<close>

theorem createScrapedLaw_invariant:
  "textLength (createScrapedLaw now law sd) = length (fullText (createScrapedLaw now law sd))
   \<and> (isComplete (createScrapedLaw now law sd)
        = (fullText (createScrapedLaw now law sd) \<noteq> []
           \<and> textLength (createScrapedLaw now law sd) > 50))"
  by (auto simp: createScrapedLaw_def truthy_def orEmpty_def split: option.splits)

text \<open>
  With \<open>minTextLength\<close> configured as 10, a text of 30 code units is non-empty and
  longer than the threshold, and the record is not complete.
\<close>

theorem createScrapedLaw_threshold_counterexample:
  "\<not> (isComplete
         (createScrapedLaw 0
            \<lparr> title = str ''Law'', date = [], link = str ''https://www.parliament.bg/bg/laws/ID/1'' \<rparr>
            \<lparr> sd_actualTitle = None, sd_metadata = None, sd_fullText = Some (replicate 30 97),
              sd_error = None, sd_retryCount = None \<rparr>)
       = (fullText
            (createScrapedLaw 0
               \<lparr> title = str ''Law'', date = [], link = str ''https://www.parliament.bg/bg/laws/ID/1'' \<rparr>
               \<lparr> sd_actualTitle = None, sd_metadata = None, sd_fullText = Some (replicate 30 97),
                 sd_error = None, sd_retryCount = None \<rparr>) \<noteq> []
          \<and> textLength
            (createScrapedLaw 0
               \<lparr> title = str ''Law'', date = [], link = str ''https://www.parliament.bg/bg/laws/ID/1'' \<rparr>
               \<lparr> sd_actualTitle = None, sd_metadata = None, sd_fullText = Some (replicate 30 97),
                 sd_error = None, sd_retryCount = None \<rparr>)
            > minTextLength (defaultOptions\<lparr> minTextLength := 10 \<rparr>)))"
  by (simp add: createScrapedLaw_def truthy_def orEmpty_def defaultOptions_def)

section \<open>Batch partitioning: completeness\<close>

lemma bySizeLoop_result:
  assumes "0 < bs"
  shows "\<exists>r. bySizeLoop bs ls i batches = Some r
           \<and> concat (map laws r) = concat (map laws batches) @ drop i ls
           \<and> map batchIndex r = map batchIndex batches @ [length batches..<length r]
           \<and> length batches \<le> length r"
proof (induction "length ls - i" arbitrary: i batches rule: less_induct)
  case less
  show ?case
  proof (cases "i < length ls")
    case False
    then show ?thesis by (subst bySizeLoop.simps) simp
  next
    case True
    let ?b = "\<lparr> batchIndex = length batches, laws = slice ls i (i + bs),
                size_b = length (slice ls i (i + bs)), startIndex = i,
                endIndex = min (i + bs) (length ls), year = None, subBatch = None \<rparr>"
    from True assms have "length ls - (i + bs) < length ls - i" by simp
    from less[OF this, of "batches @ [?b]"]
    obtain r where r: "bySizeLoop bs ls (i + bs) (batches @ [?b]) = Some r"
      "concat (map laws r) = concat (map laws (batches @ [?b])) @ drop (i + bs) ls"
      "map batchIndex r = map batchIndex (batches @ [?b]) @ [length (batches @ [?b])..<length r]"
      "length (batches @ [?b]) \<le> length r"
      by blast
    have s: "bySizeLoop bs ls i batches = Some r"
      using True r(1) by (subst bySizeLoop.simps) simp
    have "take bs (drop i ls) @ drop (i + bs) ls = drop i ls"
      by (metis add.commute append_take_drop_id drop_drop)
    then have c: "concat (map laws r) = concat (map laws batches) @ drop i ls"
      using r(2) by (simp add: slice_def)
    have "[length batches..<length r] = length batches # [Suc (length batches)..<length r]"
      using r(4) by (simp add: upt_conv_Cons)
    then have d: "map batchIndex r = map batchIndex batches @ [length batches..<length r]"
      using r(3) by simp
    from s c d r(4) show ?thesis by simp
  qed
qed

lemma bySizeLoop_zero_diverges:
  assumes "bySizeLoop bs ls i batches = Some r"
  shows "\<not> (bs = 0 \<and> i < length ls)"
proof (rule bySizeLoop.raw_induct
         [where P = "\<lambda>bs ls i batches r. \<not> (bs = 0 \<and> i < length ls)", OF _ assms])
  fix f :: "nat \<Rightarrow> 'a list \<Rightarrow> nat \<Rightarrow> 'a batch list \<Rightarrow> 'a batch list option"
    and bs ls i batches r
  assume IH: "\<And>bs ls i batches y. f bs ls i batches = Some y \<Longrightarrow> \<not> (bs = 0 \<and> i < length ls)"
    and eq: "(if i < length ls
              then f bs ls (i + bs)
                     (batches @
                       [\<lparr> batchIndex = length batches, laws = slice ls i (i + bs),
                          size_b = length (slice ls i (i + bs)), startIndex = i,
                          endIndex = min (i + bs) (length ls), year = None,
                          subBatch = None \<rparr>])
              else Some batches) = Some r"
  show "\<not> (bs = 0 \<and> i < length ls)"
  proof
    assume z: "bs = 0 \<and> i < length ls"
    with eq have "f bs ls (i + bs)
                    (batches @
                      [\<lparr> batchIndex = length batches, laws = slice ls i (i + bs),
                         size_b = length (slice ls i (i + bs)), startIndex = i,
                         endIndex = min (i + bs) (length ls), year = None,
                         subBatch = None \<rparr>]) = Some r"
      by simp
    from IH[OF this] z show False by simp
  qed
qed

lemma createBatchesBySize_result:
  assumes "0 < batchSize opts"
  shows "\<exists>r. createBatchesBySize opts ls = Some r
           \<and> concat (map laws r) = ls
           \<and> map batchIndex r = [0..<length r]"
  using bySizeLoop_result[OF assms, of ls 0 "[]"]
  by (auto simp: createBatchesBySize_def)

lemma createEqualSizeBatches_eq:
  "createEqualSizeBatches opts ls = createBatchesBySize opts ls"
  by (simp add: createEqualSizeBatches_def Let_def)

lemma mapPush_keys:
  "map fst (mapPush m k x) = (if k \<in> fst ` set m then map fst m else map fst m @ [k])"
  by (induction m k x rule: mapPush.induct) auto

lemma mapPush_distinct:
  "distinct (map fst m) \<Longrightarrow> distinct (map fst (mapPush m k x))"
  by (simp add: mapPush_keys)

lemma mapPush_items:
  "mset (concat (map snd (mapPush m k x))) = mset (concat (map snd m)) + {#x#}"
  by (induction m k x rule: mapPush.induct) auto

lemma mapPush_nonempty:
  "\<forall>p \<in> set m. snd p \<noteq> [] \<Longrightarrow> \<forall>p \<in> set (mapPush m k x). snd p \<noteq> []"
  by (induction m k x rule: mapPush.induct) auto

lemma group_fold:
  assumes "distinct (map fst m)" "\<forall>p \<in> set m. snd p \<noteq> []"
  shows "distinct (map fst (foldl (\<lambda>m (law, idx). mapPush m (yearOf law) (law, idx)) m xs))
       \<and> (\<forall>p \<in> set (foldl (\<lambda>m (law, idx). mapPush m (yearOf law) (law, idx)) m xs). snd p \<noteq> [])
       \<and> mset (concat (map snd (foldl (\<lambda>m (law, idx). mapPush m (yearOf law) (law, idx)) m xs)))
           = mset (concat (map snd m)) + mset xs"
  using assms
proof (induction xs arbitrary: m)
  case Nil
  then show ?case by simp
next
  case (Cons a xs)
  obtain law idx where a: "a = (law, idx)" by (cases a)
  let ?m = "mapPush m (yearOf law) (law, idx)"
  have 1: "distinct (map fst ?m)" using Cons.prems(1) by (rule mapPush_distinct)
  have 2: "\<forall>p \<in> set ?m. snd p \<noteq> []" using Cons.prems(2) by (rule mapPush_nonempty)
  from Cons.IH[OF 1 2] show ?case
    by (simp add: a mapPush_items)
qed

lemma groupByYear_props:
  "distinct (map fst (groupByYear yearOf ls))
   \<and> (\<forall>p \<in> set (groupByYear yearOf ls). snd p \<noteq> [])
   \<and> mset (concat (map snd (groupByYear yearOf ls))) = mset (zip ls [0..<length ls])"
  using group_fold[of "[]" yearOf "zip ls [0..<length ls]"]
  by (simp add: groupByYear_def)

lemma subBatchLoop_result:
  assumes "0 < bs"
  shows "\<exists>r. subBatchLoop bs y yl i batches = Some r
           \<and> concat (map laws r) = concat (map laws batches) @ map fst (drop i yl)
           \<and> map batchIndex r = map batchIndex batches @ [length batches..<length r]
           \<and> length batches \<le> length r"
  using assms
proof (induction bs y yl i batches rule: subBatchLoop.induct)
  case (1 bs y yearLaws i batches)
  show ?case
  proof (cases "i < length yearLaws")
    case False
    then show ?thesis by simp
  next
    case True
    with 1(2) have "slice yearLaws i (i + bs) \<noteq> []"
      by (simp add: slice_def)
    then obtain item items where sl: "slice yearLaws i (i + bs) = item # items"
      by (cases "slice yearLaws i (i + bs)") auto
    let ?b = "\<lparr> batchIndex = length batches, laws = map fst (item # items),
                size_b = length (item # items), startIndex = snd item,
                endIndex = snd (last (item # items)) + 1, year = Some y,
                subBatch = Some (i div bs + 1) \<rparr>"
    from 1(1)[OF True sl 1(2)]
    obtain r where r: "subBatchLoop bs y yearLaws (i + bs) (batches @ [?b]) = Some r"
      "concat (map laws r) = concat (map laws (batches @ [?b])) @ map fst (drop (i + bs) yearLaws)"
      "map batchIndex r = map batchIndex (batches @ [?b]) @ [length (batches @ [?b])..<length r]"
      "length (batches @ [?b]) \<le> length r"
      by blast
    have s: "subBatchLoop bs y yearLaws i batches = Some r"
      using True r(1) sl by simp
    have "take bs (drop i yearLaws) @ drop (i + bs) yearLaws = drop i yearLaws"
      by (metis add.commute append_take_drop_id drop_drop)
    then have "map fst (item # items) @ map fst (drop (i + bs) yearLaws) = map fst (drop i yearLaws)"
      using sl by (metis map_append slice_def add_diff_cancel_left')
    then have c: "concat (map laws r) = concat (map laws batches) @ map fst (drop i yearLaws)"
      using r(2) by simp
    have "[length batches..<length r] = length batches # [Suc (length batches)..<length r]"
      using r(4) by (simp add: upt_conv_Cons)
    then have d: "map batchIndex r = map batchIndex batches @ [length batches..<length r]"
      using r(3) by simp
    from s c d r(4) show ?thesis by simp
  qed
qed

lemma yearBatches_result:
  assumes "0 < bs" "yl \<noteq> []"
  shows "\<exists>r. yearBatches bs y yl batches = Some r
           \<and> concat (map laws r) = concat (map laws batches) @ map fst yl
           \<and> map batchIndex r = map batchIndex batches @ [length batches..<length r]
           \<and> length batches \<le> length r"
proof (cases "length yl > bs")
  case True
  then show ?thesis
    using subBatchLoop_result[OF assms(1), of y yl 0 batches]
    by (simp add: yearBatches_def)
next
  case False
  then show ?thesis using assms(2)
    by (cases yl) (simp_all add: yearBatches_def)
qed

lemma yearsLoop_result:
  assumes "0 < bs" "\<forall>p \<in> set groups. snd p \<noteq> []" "set ys \<subseteq> fst ` set groups"
  shows "\<exists>r. yearsLoop bs groups ys batches = Some r
           \<and> concat (map laws r)
               = concat (map laws batches) @ concat (map (\<lambda>y. map fst (the (map_of groups y))) ys)
           \<and> map batchIndex r = map batchIndex batches @ [length batches..<length r]
           \<and> length batches \<le> length r"
  using assms(3)
proof (induction ys arbitrary: batches)
  case Nil
  then show ?case by simp
next
  case (Cons y ys)
  then have "y \<in> fst ` set groups" by simp
  then obtain yl where yl: "map_of groups y = Some yl"
    by (metis map_of_eq_None_iff not_Some_eq)
  then have "(y, yl) \<in> set groups" by (rule map_of_SomeD)
  with assms(2) have ne: "yl \<noteq> []" by auto
  from yearBatches_result[OF assms(1) ne, of y batches]
  obtain b' where b': "yearBatches bs y yl batches = Some b'"
    "concat (map laws b') = concat (map laws batches) @ map fst yl"
    "map batchIndex b' = map batchIndex batches @ [length batches..<length b']"
    "length batches \<le> length b'"
    by blast
  from Cons.prems have "set ys \<subseteq> fst ` set groups" by simp
  from Cons.IH[OF this, of b']
  obtain r where r: "yearsLoop bs groups ys b' = Some r"
    "concat (map laws r) = concat (map laws b') @ concat (map (\<lambda>y. map fst (the (map_of groups y))) ys)"
    "map batchIndex r = map batchIndex b' @ [length b'..<length r]"
    "length b' \<le> length r"
    by blast
  have s: "yearsLoop bs groups (y # ys) batches = Some r"
    using yl b'(1) r(1) by simp
  have c: "concat (map laws r) = concat (map laws batches) @
             concat (map (\<lambda>y. map fst (the (map_of groups y))) (y # ys))"
    using r(2) b'(2) yl by simp
  have "[length batches..<length r] = [length batches..<length b'] @ [length b'..<length r]"
    using b'(4) r(4) by (metis le_Suc_ex upt_add_eq_append)
  then have d: "map batchIndex r = map batchIndex batches @ [length batches..<length r]"
    using r(3) b'(3) by simp
  from s c d b'(4) r(4) show ?case by auto
qed

lemma mset_concat_lookup:
  assumes "distinct (map fst groups)" "mset ys = mset (map fst groups)"
  shows "mset (concat (map (\<lambda>y. f (the (map_of groups y))) ys))
           = mset (concat (map (\<lambda>p. f (snd p)) groups))"
proof -
  have "mset (concat (map (\<lambda>y. f (the (map_of groups y))) ys))
          = (\<Sum>y\<in>#mset ys. mset (f (the (map_of groups y))))"
    by (simp add: mset_concat sum_mset_sum_list[symmetric] image_mset.compositionality comp_def)
  also have "\<dots> = (\<Sum>y\<in>#mset (map fst groups). mset (f (the (map_of groups y))))"
    by (simp add: assms(2))
  also have "\<dots> = (\<Sum>p\<leftarrow>groups. mset (f (the (map_of groups (fst p)))))"
    by (simp add: sum_mset_sum_list[symmetric] image_mset.compositionality comp_def)
  also have "\<dots> = (\<Sum>p\<leftarrow>groups. mset (f (snd p)))"
  proof (rule arg_cong[where f = sum_list], rule map_cong[OF refl])
    fix p assume "p \<in> set groups"
    then have "map_of groups (fst p) = Some (snd p)"
      using assms(1) by (metis map_of_is_SomeI prod.collapse)
    then show "mset (f (the (map_of groups (fst p)))) = mset (f (snd p))" by simp
  qed
  also have "\<dots> = mset (concat (map (\<lambda>p. f (snd p)) groups))"
    by (simp add: mset_concat comp_def)
  finally show ?thesis .
qed

lemma sortYears_mset: "mset (sortYears order ys) = mset ys"
  by (simp add: sortYears_def)

lemma createBatchesByYearWith_result:
  assumes "0 < batchSize opts"
  shows "\<exists>r. createBatchesByYearWith yearOf opts ls = Some r
           \<and> mset (concat (map laws r)) = mset ls
           \<and> map batchIndex r = [0..<length r]"
proof -
  let ?g = "groupByYear yearOf ls"
  let ?ys = "sortYears (sortOrder opts) (map fst ?g)"
  note g = groupByYear_props[of yearOf ls]
  have sub: "set ?ys \<subseteq> fst ` set ?g"
    using sortYears_mset[of "sortOrder opts" "map fst ?g"]
    by (metis set_map set_mset_mset subset_refl)
  from yearsLoop_result[OF assms _ sub, of "[]"] g
  obtain r where r: "yearsLoop (batchSize opts) ?g ?ys [] = Some r"
    "concat (map laws r) = concat (map (\<lambda>y. map fst (the (map_of ?g y))) ?ys)"
    "map batchIndex r = [0..<length r]"
    by auto
  have "mset (concat (map laws r)) = mset (concat (map (\<lambda>p. map fst (snd p)) ?g))"
    using mset_concat_lookup[of ?g ?ys "map fst"] g sortYears_mset r(2) by simp
  also have "\<dots> = mset (map fst (concat (map snd ?g)))"
    by (simp only: map_concat map_map comp_def)
  also have "\<dots> = image_mset fst (mset (concat (map snd ?g)))"
    by simp
  also have "\<dots> = image_mset fst (mset (zip ls [0..<length ls]))"
    using g by simp
  also have "\<dots> = mset ls"
  proof -
    have "map fst (zip ls [0..<length ls]) = ls" by simp
    then show ?thesis by (metis mset_map)
  qed
  finally show ?thesis using r(1,3)
    by (simp add: createBatchesByYearWith_def Let_def)
qed

text \<open>
  C6.  For a positive batch size, every strategy returns, and the laws of the batches,
  taken in the order of the batch indices 0, 1, 2, ..., are the worklist it was given
  (the sorted worklist) as a multiset: no law is repeated and none is left out.
\<close>

theorem batch_completeness:
  assumes "0 < batchSize opts"
  shows "\<exists>bs. createBatchesByStrategy opts ws = Some bs
           \<and> mset (concat (map laws bs)) = mset ws
           \<and> map batchIndex bs = [0..<length bs]"
proof -
  consider (y) "strategy opts = str ''year''"
    | (e) "strategy opts \<noteq> str ''year''" "strategy opts = str ''equal''"
    | (s) "strategy opts \<noteq> str ''year''" "strategy opts \<noteq> str ''equal''"
    by blast
  then show ?thesis
  proof cases
    case y
    then show ?thesis
      using createBatchesByYearWith_result[OF assms, of extractYearFromLaw ws]
      by (simp add: createBatchesByStrategy_def createBatchesByYear_def)
  next
    case e
    then show ?thesis
      using createBatchesBySize_result[OF assms, of ws]
      by (auto simp: createBatchesByStrategy_def createEqualSizeBatches_eq)
  next
    case s
    then show ?thesis
      using createBatchesBySize_result[OF assms, of ws]
      by (auto simp: createBatchesByStrategy_def)
  qed
qed

theorem batch_completeness_witness:
  "0 < batchSize \<lparr> batchSize = 2, sortOrder = str ''desc'', strategy = str ''year'',
                    totalWorkers = None \<rparr>
   \<and> (\<exists>bs. createBatchesByStrategy
              \<lparr> batchSize = 2, sortOrder = str ''desc'', strategy = str ''year'',
                totalWorkers = None \<rparr>
              [\<lparr> title = str ''05/03/2021 A'', date = [], link = str ''https://www.parliament.bg/bg/laws/ID/162001'' \<rparr>,
               \<lparr> title = str ''17/11/2020 B'', date = [], link = str ''https://www.parliament.bg/bg/laws/ID/161002'' \<rparr>,
               \<lparr> title = str ''02/02/2021 C'', date = [], link = str ''https://www.parliament.bg/bg/laws/ID/162003'' \<rparr>]
            = Some bs
          \<and> mset (concat (map laws bs))
              = mset [\<lparr> title = str ''05/03/2021 A'', date = [], link = str ''https://www.parliament.bg/bg/laws/ID/162001'' \<rparr>,
                      \<lparr> title = str ''17/11/2020 B'', date = [], link = str ''https://www.parliament.bg/bg/laws/ID/161002'' \<rparr>,
                      \<lparr> title = str ''02/02/2021 C'', date = [], link = str ''https://www.parliament.bg/bg/laws/ID/162003'' \<rparr>]
          \<and> map batchIndex bs = [0..<length bs])"
  using batch_completeness[of "\<lparr> batchSize = 2, sortOrder = str ''desc'', strategy = str ''year'',
                    totalWorkers = None \<rparr>"
      "[\<lparr> title = str ''05/03/2021 A'', date = [], link = str ''https://www.parliament.bg/bg/laws/ID/162001'' \<rparr>,
        \<lparr> title = str ''17/11/2020 B'', date = [], link = str ''https://www.parliament.bg/bg/laws/ID/161002'' \<rparr>,
        \<lparr> title = str ''02/02/2021 C'', date = [], link = str ''https://www.parliament.bg/bg/laws/ID/162003'' \<rparr>]"]
  by simp

text \<open>
  C7.  The equal strategy computes the size that would give one batch per worker and
  then slices by the configured batch size instead: 25 laws, 10 workers and the default
  batch size of 100 give a single batch of 25 laws, not batches of 3.
\<close>

theorem equal_strategy_uses_batchSize:
  "map_option (map size_b)
     (createBatchesByStrategy
        \<lparr> batchSize = 100, sortOrder = str ''desc'', strategy = str ''equal'',
          totalWorkers = Some 10 \<rparr>
        (replicate 25 \<lparr> title = str ''Law'', date = [],
                         link = str ''https://www.parliament.bg/bg/laws/ID/1'' \<rparr>))
   = Some [25]"
  by (simp add: createBatchesByStrategy_def createEqualSizeBatches_def createBatchesBySize_def
        bySizeLoop.simps slice_def str_def)

section \<open>Evaluation rules and sample inputs\<close>

lemmas regex_eval =
  exec_def test_def lit_def liti_def oneOrMore_def space_def digit_def anyUnit_def dot_def
  lineStart_def tailWithin_def lead_def canonicalize_def isWhiteSpace_def isDigit_def
  isLineTerminator_def execFrom.simps repeatEnds.simps str_def

lemmas normalizer_eval =
  processLawText_def findStart_def findEnd_def startPatterns_def endPatterns_def
  slice_def trim_def trimStart_def trimEnd_def

lemma sample_length: "length sampleShortText = 100"
  by (simp add: sampleShortText_def)

lemma sample_nonempty: "sampleShortText \<noteq> []"
  using sample_length by auto

lemma sampleLaw_id: "extractLawId (link sampleLaw) = Some (str ''166100'')"
  by (simp add: sampleLaw_def extractLawId_def lawIdPattern_def slice_def regex_eval)

lemmas sample_eval =
  sample_nonempty sample_length sampleLaw_def sampleData_def failingWorld_def workingWorld_def
  flakyWorld_def attemptFails_def createScrapedLaw_def truthy_def orEmpty_def

section \<open>The text normalizer\<close>

lemma trimEnd_take: "trimEnd s = take (length s - length (takeWhile isWhiteSpace (rev s))) s"
proof -
  have "rev (drop (length (takeWhile isWhiteSpace (rev s))) (rev s))
          = take (length s - length (takeWhile isWhiteSpace (rev s))) s"
    by (simp add: rev_drop)
  then show ?thesis
    by (simp add: trimEnd_def dropWhile_eq_drop)
qed

lemma trimEnd_last: "trimEnd s \<noteq> [] \<Longrightarrow> \<not> isWhiteSpace (last (trimEnd s))"
proof -
  assume ne: "trimEnd s \<noteq> []"
  then have d: "dropWhile isWhiteSpace (rev s) \<noteq> []"
    by (simp add: trimEnd_def)
  then have "\<not> isWhiteSpace (hd (dropWhile isWhiteSpace (rev s)))"
    by (rule hd_dropWhile)
  with d show ?thesis
    by (simp add: trimEnd_def last_rev)
qed

lemma trim_hd: "trim s \<noteq> [] \<Longrightarrow> \<not> isWhiteSpace (hd (trim s))"
proof -
  assume ne: "trim s \<noteq> []"
  let ?d = "dropWhile isWhiteSpace s"
  let ?m = "length ?d - length (takeWhile isWhiteSpace (rev ?d))"
  have t: "trim s = take ?m ?d"
    by (simp add: trim_def trimStart_def trimEnd_take)
  with ne have d: "?d \<noteq> []" and m: "0 < ?m"
    by auto
  from d have "\<not> isWhiteSpace (hd ?d)" by (rule hd_dropWhile)
  moreover from m have "hd (take ?m ?d) = hd ?d"
    by (metis hd_take)
  ultimately show ?thesis unfolding t by simp
qed

lemma trim_id:
  assumes "s \<noteq> []" "\<not> isWhiteSpace (hd s)" "\<not> isWhiteSpace (last s)"
  shows "trim s = s"
proof -
  from assms(1,2) have 1: "dropWhile isWhiteSpace s = s"
    by (cases s) simp_all
  from assms(1,3) have 2: "dropWhile isWhiteSpace (rev s) = rev s"
    by (cases "rev s") (simp_all add: last_rev[symmetric] hd_rev)
  show ?thesis
    by (simp add: trim_def trimStart_def trimEnd_def 1 2)
qed

lemma processLawText_hd:
  "processLawText t \<noteq> [] \<Longrightarrow> \<not> isWhiteSpace (hd (processLawText t))"
  by (cases "t = []") (simp_all add: processLawText_def trim_hd)

lemma startsWith_append: "startsWith (p @ s) p"
  by (induction p) simp_all

lemma truncationMarker_props:
  "length truncationMarker = 12" "truncationMarker \<noteq> []"
  "\<not> isWhiteSpace (last truncationMarker)"
  "rev truncationMarker = rev (str ''[TRUNCATED]'') @ [10]"
  by (simp_all add: truncationMarker_def str_def isWhiteSpace_def)

lemma normalizeFullText_truncates:
  assumes "length (processLawText raw) > maxTextLength opts" and "0 < maxTextLength opts"
  shows "normalizeFullText opts raw
           = take (maxTextLength opts) (processLawText raw) @ 10 # str ''[TRUNCATED]''
         \<and> length (normalizeFullText opts raw) = maxTextLength opts + length (str ''[TRUNCATED]'') + 1
         \<and> endsWith (normalizeFullText opts raw) (str ''[TRUNCATED]'')"
proof -
  let ?p = "processLawText raw"
  let ?n = "maxTextLength opts"
  let ?out = "take ?n ?p @ truncationMarker"
  from assms have pne: "?p \<noteq> []" by auto
  then have rawne: "raw \<noteq> []" by (auto simp: processLawText_def)
  have "hd ?out = hd ?p"
    using assms(2) pne by (cases ?p) (simp_all add: take_Cons')
  with processLawText_hd[OF pne] have h: "\<not> isWhiteSpace (hd ?out)" by simp
  have l: "\<not> isWhiteSpace (last ?out)"
    using truncationMarker_props(2,3) by simp
  have "trim ?out = ?out"
    using h l truncationMarker_props(2) by (intro trim_id) simp_all
  then have eq: "normalizeFullText opts raw = ?out"
    using assms(1) rawne by (simp add: normalizeFullText_def Let_def substring_def)
  have len: "length ?out = ?n + length (str ''[TRUNCATED]'') + 1"
    using assms(1) by (simp add: truncationMarker_def str_def)
  have "rev ?out = rev (str ''[TRUNCATED]'') @ ([10] @ rev (take ?n ?p))"
    by (simp add: truncationMarker_props(4))
  then have e: "endsWith ?out (str ''[TRUNCATED]'')"
    unfolding endsWith_def by (simp only: startsWith_append)
  from eq len e show ?thesis
    by (simp add: truncationMarker_def)
qed

lemma sample_processed: "processLawText sampleShortText = sampleShortText"
  by (simp add: sampleShortText_def normalizer_eval regex_eval)

lemma sample_longer: "length (processLawText sampleShortText) > 60"
  by (simp add: sample_processed sample_length)

text \<open>
  C2.  When the text that boundary detection returns is longer than a positive
  \<open>maxTextLength\<close>, the normalized text is its first \<open>maxTextLength\<close> code units
  followed by a newline and the marker: its length is \<open>maxTextLength + 12\<close>, one more
  than \<open>maxTextLength\<close> plus the eleven units of the marker, and it ends with the marker.
\<close>

theorem truncation_marker:
  assumes "length (processLawText raw) > maxTextLength opts" and "0 < maxTextLength opts"
  shows "normalizeFullText opts raw
           = take (maxTextLength opts) (processLawText raw) @ 10 # str ''[TRUNCATED]''
         \<and> length (normalizeFullText opts raw) = maxTextLength opts + length (str ''[TRUNCATED]'') + 1
         \<and> endsWith (normalizeFullText opts raw) (str ''[TRUNCATED]'')"
  using assms by (rule normalizeFullText_truncates)

theorem truncation_marker_witness:
  "length (processLawText sampleShortText) > maxTextLength (defaultOptions\<lparr> maxTextLength := 60 \<rparr>)
   \<and> 0 < maxTextLength (defaultOptions\<lparr> maxTextLength := 60 \<rparr>)
   \<and> normalizeFullText (defaultOptions\<lparr> maxTextLength := 60 \<rparr>) sampleShortText
       = take 60 sampleShortText @ 10 # str ''[TRUNCATED]''
   \<and> length (normalizeFullText (defaultOptions\<lparr> maxTextLength := 60 \<rparr>) sampleShortText) = 72
   \<and> endsWith (normalizeFullText (defaultOptions\<lparr> maxTextLength := 60 \<rparr>) sampleShortText)
         (str ''[TRUNCATED]'')"
proof -
  have h: "length (processLawText sampleShortText) > maxTextLength (defaultOptions\<lparr> maxTextLength := 60 \<rparr>)"
    using sample_longer by simp
  have m: "0 < maxTextLength (defaultOptions\<lparr> maxTextLength := 60 \<rparr>)"
    by simp
  have l: "length (str ''[TRUNCATED]'') = 11"
    by (simp add: str_def)
  note t = truncation_marker[OF h m]
  have a: "normalizeFullText (defaultOptions\<lparr> maxTextLength := 60 \<rparr>) sampleShortText
             = take 60 sampleShortText @ 10 # str ''[TRUNCATED]''"
    using t by (simp add: sample_processed)
  have b: "length (normalizeFullText (defaultOptions\<lparr> maxTextLength := 60 \<rparr>) sampleShortText) = 72"
    using t by (simp add: l sample_processed sample_length)
  have c: "endsWith (normalizeFullText (defaultOptions\<lparr> maxTextLength := 60 \<rparr>) sampleShortText)
             (str ''[TRUNCATED]'')"
    using t by blast
  from h m a b c show ?thesis by blast
qed

text \<open>
  The claim as the specification states it, a length of \<open>maxTextLength\<close> plus the
  length of the marker, fails: the sample text of 100 code units with a limit of 60
  gives 72 code units, not 71.
\<close>

theorem truncation_length_counterexample:
  "length sampleShortText > maxTextLength (defaultOptions\<lparr> maxTextLength := 60 \<rparr>)
   \<and> length (normalizeFullText (defaultOptions\<lparr> maxTextLength := 60 \<rparr>) sampleShortText) = 72
   \<and> length (normalizeFullText (defaultOptions\<lparr> maxTextLength := 60 \<rparr>) sampleShortText)
       \<noteq> maxTextLength (defaultOptions\<lparr> maxTextLength := 60 \<rparr>) + length (str ''[TRUNCATED]'')"
proof -
  have h: "length (processLawText sampleShortText) > maxTextLength (defaultOptions\<lparr> maxTextLength := 60 \<rparr>)"
    using sample_longer by simp
  have m: "0 < maxTextLength (defaultOptions\<lparr> maxTextLength := 60 \<rparr>)"
    by simp
  have l: "length (str ''[TRUNCATED]'') = 11"
    by (simp add: str_def)
  have b: "length (normalizeFullText (defaultOptions\<lparr> maxTextLength := 60 \<rparr>) sampleShortText) = 72"
    using normalizeFullText_truncates[OF h m] by (simp add: l sample_processed sample_length)
  have g: "length sampleShortText > maxTextLength (defaultOptions\<lparr> maxTextLength := 60 \<rparr>)"
    using h by (simp add: sample_processed)
  from g b show ?thesis
    by (simp add: l)
qed

subsection \<open>The end boundary\<close>

lemma ends_Eol_rest:
  assumes "e \<in> set (ends (Seq a Eol) pos)"
  shows "snd e = []"
proof -
  from assms obtain q where "e \<in> set (ends Eol q)"
    by auto
  then show ?thesis
    by (cases "snd q = []") simp_all
qed

lemma ends_tailWithin_rest:
  assumes "e \<in> set (ends (tailWithin n r) pos)"
  shows "snd e = []"
proof -
  have "ends (tailWithin n r) pos
          = concat (map (ends (Seq (Upto n anyUnit) Eol)) (ends r pos))"
    by (simp only: tailWithin_def ends.simps(5))
  with assms obtain q where "e \<in> set (ends (Seq (Upto n anyUnit) Eol) q)"
    by auto
  then show ?thesis by (rule ends_Eol_rest)
qed

lemma execFrom_tailWithin:
  "execFrom (tailWithin n r) i b s = Some (j, e) \<Longrightarrow> e = i + length s"
proof (induction s arbitrary: i b)
  case Nil
  show ?case
  proof (cases "ends (tailWithin n r) (b, [])")
    case Nil
    with Nil.prems show ?thesis
      by (subst (asm) execFrom.simps) simp
  next
    case (Cons e0 es)
    with Nil.prems show ?thesis
      by (subst (asm) execFrom.simps) simp
  qed
next
  case (Cons c cs)
  show ?case
  proof (cases "ends (tailWithin n r) (b, c # cs)")
    case Nil
    with Cons.prems have "execFrom (tailWithin n r) (Suc i) False cs = Some (j, e)"
      by (subst (asm) execFrom.simps) simp
    from Cons.IH[OF this] show ?thesis by simp
  next
    case (Cons e0 es)
    then have "e0 \<in> set (ends (tailWithin n r) (b, c # cs))" by simp
    then have "snd e0 = []" by (rule ends_tailWithin_rest)
    with Cons Cons.prems show ?thesis
      by (subst (asm) execFrom.simps) simp
  qed
qed

lemma firstMatch_endPatterns:
  "firstMatch endPatterns t = Some (j, e) \<Longrightarrow> e = length t"
  by (auto simp: endPatterns_def exec_def split: option.splits dest!: execFrom_tailWithin)

lemma findEnd_length: "findEnd t = length t"
  by (auto simp: findEnd_def split: option.splits dest: firstMatch_endPatterns)

lemma processLawText_keeps_tail:
  "processLawText t = (if t = [] then [] else trim (drop (findStart t) t))"
  by (simp add: processLawText_def findEnd_length slice_def)

text \<open>
  C3.  Every end pattern is anchored at the end of the text, so the end of a match is
  the end of the text and boundary detection never cuts what follows the signature
  block (\<open>findEnd_length\<close>).  The text evaluated here is the line "menu nav", the law
  heading followed by for and X, the chairman's signature line followed by NS, and the
  line "footer": one opening marker and one signature marker.  The result starts at the
  heading and keeps the footer.
\<close>

theorem boundary_keeps_trailing_content:
  "processLawText
     (str ''menu nav'' @ [10]
        @ [1047, 1040, 1050, 1054, 1053, 32, 1047, 1040, 32] @ str ''X'' @ [10]
        @ [1055, 1088, 1077, 1076, 1089, 1077, 1076, 1072, 1090, 1077, 1083] @ str '' NS'' @ [10]
        @ str ''footer'')
   = [1047, 1040, 1050, 1054, 1053, 32, 1047, 1040, 32] @ str ''X'' @ [10]
       @ [1055, 1088, 1077, 1076, 1089, 1077, 1076, 1072, 1090, 1077, 1083] @ str '' NS'' @ [10]
       @ str ''footer''"
  by (simp add: normalizer_eval regex_eval)

section \<open>The text validator: severity\<close>

lemma sample_lastLines: "lastLines sampleShortText = sampleShortText"
  by (simp add: sampleShortText_def lastLines_def sliceLast_def trim_def trimStart_def
        trimEnd_def isWhiteSpace_def)

lemma sample_no_valid_ending: "\<not> anyMatch validEndingPatterns sampleShortText"
  by (simp add: sampleShortText_def anyMatch_def validEndingPatterns_def regex_eval)

lemma sample_no_invalid_ending: "\<not> anyMatch invalidEndingPatterns sampleShortText"
  by (simp add: sampleShortText_def anyMatch_def invalidEndingPatterns_def regex_eval
        numberClass_def cyrillicOrSpace_def digitOrSpace_def)

lemma sample_words: "length (splitWhiteSpace False [] sampleShortText) = 1"
  by (simp add: sampleShortText_def isWhiteSpace_def)

lemma sample_not_truncated: "\<not> anyMatch truncationIndicators sampleShortText"
  by (simp add: sampleShortText_def anyMatch_def truncationIndicators_def regex_eval)

lemma sample_encoding: "\<not> test (Atom (\<lambda>c. c = 65533)) sampleShortText"
  by (simp add: sampleShortText_def regex_eval)

lemma sample_paragraphs:
  "filter (\<lambda>p. trim p \<noteq> []) (splitOn [10, 10] [] sampleShortText) = [sampleShortText]"
  by (simp add: sampleShortText_def trim_def trimStart_def trimEnd_def isWhiteSpace_def)

lemma sample_keywords:
  "list_ex (\<lambda>keyword. includes_js (toLowerCase sampleShortText) keyword) lawKeywords"
  by (simp add: sampleShortText_def lawKeywords_def toLowerCase_def toLowerUnit_def)

lemmas sample_facts =
  sample_length sample_lastLines sample_no_valid_ending sample_no_invalid_ending sample_words
  sample_not_truncated sample_encoding sample_paragraphs sample_keywords

lemmas check_defs =
  checkLength_def checkInvalidEnding_def checkSuspiciousEnding_def checkTruncation_def
  checkEncoding_def checkStructure_def checkKeywords_def flag_def keepCritical_def
  initialResult_def

text \<open>
  C1.  The checks that set the severity to medium keep a critical severity and
  overwrite every other one, a high severity included.  The sample text has 100 code
  units in one word.  The length check tags it \<open>very_short\<close> with severity high; the
  ending check then tags it \<open>suspicious_ending\<close> and sets the severity to medium; no
  later check raises it.  The severity reported is medium, below the high severity that
  the specification gives to the first tag.
\<close>

theorem severity_lowered_to_medium:
  "severity (checkLength sampleShortText initialResult) = High
   \<and> severity (checkSuspiciousEnding sampleShortText
                 (checkInvalidEnding sampleShortText (checkLength sampleShortText initialResult)))
       = Medium
   \<and> issues (validateLawText (Some sampleShortText))
       = [very_short, suspicious_ending, poor_structure]
   \<and> severity (validateLawText (Some sampleShortText)) = Medium
   \<and> rank (severity (validateLawText (Some sampleShortText)))
       < maxIssueRank (issues (validateLawText (Some sampleShortText)))"
proof -
  have ne: "sampleShortText \<noteq> []"
    using sample_length by auto
  show ?thesis
    by (simp add: validateLawText_def ne check_defs sample_facts maxIssueRank_def Let_def)
qed

section \<open>The retry engine and the scheduler\<close>

lemma createScrapedLaw_lawId: "lawId (createScrapedLaw now law sd) = extractLawId (link law)"
  by (simp add: createScrapedLaw_def)

lemma createScrapedLaw_complete:
  "isComplete (createScrapedLaw now law sd) \<Longrightarrow> length (fullText (createScrapedLaw now law sd)) > 50"
  by (simp add: createScrapedLaw_def)

lemma tryAttempt_fails:
  "attemptFails w law a \<Longrightarrow> \<exists>err. tryAttempt w law a st = Inl err"
  by (auto simp: attemptFails_def tryAttempt_def Let_def split: pageResult.splits)

lemma tryAttempt_succeeds:
  assumes "\<not> attemptFails w law a"
  shows "\<exists>scraped. isComplete scraped \<and> length (fullText scraped) > 50
           \<and> tryAttempt w law a st
               = Inr (st\<lparr> outputDir := (outputDir st)(extractLawId (link law) \<mapsto> scraped),
                           counters := (counters st)\<lparr> successful := successful (counters st) + 1,
                                                       processed := processed (counters st) + 1 \<rparr>,
                           trace := trace st @ [Saved (extractLawId (link law))] \<rparr>)"
proof (cases "page w law a")
  case (Threw msg)
  with assms show ?thesis by (simp add: attemptFails_def)
next
  case (Extracted sd)
  let ?r = "createScrapedLaw (clock w) law (sd\<lparr> sd_retryCount := Some (a - 1) \<rparr>)"
  from assms Extracted have c: "isComplete ?r" and wr: "writable w law a"
    by (simp_all add: attemptFails_def)
  from c have "length (fullText ?r) > 50" by (rule createScrapedLaw_complete)
  moreover have "tryAttempt w law a st
      = Inr (st\<lparr> outputDir := (outputDir st)(extractLawId (link law) \<mapsto> ?r),
                  counters := (counters st)\<lparr> successful := successful (counters st) + 1,
                                              processed := processed (counters st) + 1 \<rparr>,
                  trace := trace st @ [Saved (extractLawId (link law))] \<rparr>)"
    using Extracted c wr by (simp add: tryAttempt_def Let_def createScrapedLaw_lawId)
  ultimately show ?thesis using c by blast
qed

lemma retryLoop_exhausted:
  "maxRetries opts < a \<Longrightarrow>
   retryLoop opts w law b a le rc st
     = st\<lparr> failures := failures st @
                [createFailedLaw (clock w) law
                   (case le of None \<Rightarrow> UnknownError | Some e \<Rightarrow> e) rc b],
             counters := (counters st)\<lparr> failed := failed (counters st) + 1,
                                         processed := processed (counters st) + 1 \<rparr>,
             trace := trace st @ [LoggedFailure (extractLawId (link law))] \<rparr>"
  by (subst retryLoop.simps) simp

lemma retryLoop_trace:
  assumes "a \<le> k" "k \<le> maxRetries opts"
    and "\<forall>i. a \<le> i \<and> i < k \<longrightarrow> attemptFails w law i"
    and "\<not> attemptFails w law k \<or> k = maxRetries opts"
  shows "trace (retryLoop opts w law b a le rc st)
           = trace st @ concat (map (\<lambda>i. [Attempt i, Delay (backoff i)]) [a..<k])
               @ [Attempt k]
               @ (if attemptFails w law k then [LoggedFailure (extractLawId (link law))]
                  else [Saved (extractLawId (link law))])"
  using assms
proof (induction "k - a" arbitrary: a le rc st)
  case 0
  then have ak: "a = k" by simp
  show ?case
  proof (cases "attemptFails w law k")
    case True
    with "0.prems"(4) have km: "k = maxRetries opts" by simp
    from tryAttempt_fails[OF True]
    obtain err where e: "tryAttempt w law k (st\<lparr> trace := trace st @ [Attempt k] \<rparr>) = Inl err"
      by blast
    have "retryLoop opts w law b k le rc st
            = retryLoop opts w law b (k + 1) (Some err) k (st\<lparr> trace := trace st @ [Attempt k] \<rparr>)"
      using e km by (subst retryLoop.simps) simp
    then show ?thesis
      using True km ak by (simp add: retryLoop_exhausted)
  next
    case False
    from tryAttempt_succeeds[OF False, of "st\<lparr> trace := trace st @ [Attempt k] \<rparr>"]
    obtain scraped where
      "tryAttempt w law k (st\<lparr> trace := trace st @ [Attempt k] \<rparr>)
         = Inr (st\<lparr> trace := trace st @ [Attempt k],
                     outputDir := (outputDir st)(extractLawId (link law) \<mapsto> scraped),
                     counters := (counters st)\<lparr> successful := successful (counters st) + 1,
                                                 processed := processed (counters st) + 1 \<rparr>,
                     trace := trace st @ [Attempt k] @ [Saved (extractLawId (link law))] \<rparr>)"
      by auto
    then show ?thesis
      using False ak "0.prems"(2) by (subst retryLoop.simps) simp
  qed
next
  case (Suc n)
  then have lt: "a < k" by simp
  with Suc.prems have f: "attemptFails w law a" and am: "a < maxRetries opts"
    by auto
  from tryAttempt_fails[OF f]
  obtain err where e: "tryAttempt w law a (st\<lparr> trace := trace st @ [Attempt a] \<rparr>) = Inl err"
    by blast
  have step: "retryLoop opts w law b a le rc st
          = retryLoop opts w law b (a + 1) (Some err) a
              (st\<lparr> trace := trace st @ [Attempt a, Delay (backoff a)] \<rparr>)"
    using e am by (subst retryLoop.simps) simp
  have n: "n = k - (a + 1)" using Suc.hyps(2) by simp
  have p1: "a + 1 \<le> k" using lt by simp
  have p3: "\<forall>i. a + 1 \<le> i \<and> i < k \<longrightarrow> attemptFails w law i"
    using Suc.prems(3) by simp
  have "[a..<k] = a # [a + 1..<k]"
    using lt by (simp add: upt_conv_Cons)
  then show ?case
    using Suc.hyps(1)[OF n p1 Suc.prems(2) p3 Suc.prems(4),
        of "Some err" a "st\<lparr> trace := trace st @ [Attempt a, Delay (backoff a)] \<rparr>"]
    by (simp add: step)
qed

text \<open>
  C8.  An item without an output file is attempted 1, 2, ..., \<open>k\<close>, where \<open>k\<close> is the
  first attempt that succeeds, or \<open>maxRetries\<close> when none does.  Each failed attempt
  \<open>i < k\<close> is followed by one sleep of \<open>min (1000 * 2 ^ (i - 1)) 10000\<close> milliseconds and
  then by attempt \<open>i + 1\<close>; attempt \<open>k\<close> is followed by the save of the record or by the
  failure log entry, and by no sleep and no further attempt.
\<close>

theorem retry_backoff:
  assumes "outputDir st (extractLawId (link law)) = None"
    and "1 \<le> k" and "k \<le> maxRetries opts"
    and "\<forall>i. 1 \<le> i \<and> i < k \<longrightarrow> attemptFails w law i"
    and "\<not> attemptFails w law k \<or> k = maxRetries opts"
  shows "trace (scrapeSingleLaw opts w batchId st law)
           = trace st
               @ concat (map (\<lambda>i. [Attempt i, Delay (min (1000 * 2 ^ (i - 1)) 10000)]) [1..<k])
               @ [Attempt k]
               @ (if attemptFails w law k then [LoggedFailure (extractLawId (link law))]
                  else [Saved (extractLawId (link law))])"
  using assms(1) retryLoop_trace[OF assms(2,3,4,5), of batchId None 0 st]
  by (simp add: scrapeSingleLaw_def backoff_def)

theorem retry_backoff_witness:
  "outputDir (freshState Map.empty []) (extractLawId (link sampleLaw)) = None
   \<and> (1::nat) \<le> 3 \<and> 3 \<le> maxRetries defaultOptions
   \<and> attemptFails flakyWorld sampleLaw 1 \<and> attemptFails flakyWorld sampleLaw 2
   \<and> \<not> attemptFails flakyWorld sampleLaw 3
   \<and> trace (scrapeSingleLaw defaultOptions flakyWorld (str ''b'') (freshState Map.empty []) sampleLaw)
       = [Attempt 1, Delay 1000, Attempt 2, Delay 2000, Attempt 3, Saved (Some (str ''166100''))]"
proof -
  have h1: "outputDir (freshState Map.empty []) (extractLawId (link sampleLaw)) = None"
    by (simp add: freshState_def)
  have h3: "3 \<le> maxRetries defaultOptions"
    by (simp add: defaultOptions_def)
  have h4: "\<forall>i. 1 \<le> i \<and> i < 3 \<longrightarrow> attemptFails flakyWorld sampleLaw i"
    by (simp add: flakyWorld_def attemptFails_def)
  have h5: "\<not> attemptFails flakyWorld sampleLaw 3"
    by (simp add: sample_eval)
  have u: "[Suc 0..<3] = [Suc 0, 2]"
    by (simp add: upt_conv_Cons)
  have h6: "attemptFails flakyWorld sampleLaw 1 \<and> attemptFails flakyWorld sampleLaw 2"
    by (simp add: flakyWorld_def attemptFails_def)
  from retry_backoff[OF h1 _ h3 h4 disjI1[OF h5], of "str ''b''"]
  have "trace (scrapeSingleLaw defaultOptions flakyWorld (str ''b'') (freshState Map.empty []) sampleLaw)
       = [Attempt 1, Delay 1000, Attempt 2, Delay 2000, Attempt 3, Saved (Some (str ''166100''))]"
    by (simp add: h5 u sampleLaw_id freshState_def)
  with h1 h3 h5 h6 show ?thesis by simp
qed

subsection \<open>What one item changes\<close>

lemma retryLoop_cases:
  "(outputDir (retryLoop opts w law b a le rc st) = outputDir st
      \<and> successful (counters (retryLoop opts w law b a le rc st)) = successful (counters st)
      \<and> failed (counters (retryLoop opts w law b a le rc st)) = failed (counters st) + 1
      \<and> skipped (counters (retryLoop opts w law b a le rc st)) = skipped (counters st))
   \<or> (\<exists>scraped. isComplete scraped \<and> length (fullText scraped) > 50
      \<and> outputDir (retryLoop opts w law b a le rc st)
          = (outputDir st)(extractLawId (link law) \<mapsto> scraped)
      \<and> successful (counters (retryLoop opts w law b a le rc st)) = successful (counters st) + 1
      \<and> failed (counters (retryLoop opts w law b a le rc st)) = failed (counters st)
      \<and> skipped (counters (retryLoop opts w law b a le rc st)) = skipped (counters st))"
proof (induction "Suc (maxRetries opts) - a" arbitrary: a le rc st)
  case 0
  then have "maxRetries opts < a" by simp
  then show ?case by (simp add: retryLoop_exhausted)
next
  case (Suc n)
  then have am: "a \<le> maxRetries opts" by simp
  show ?case
  proof (cases "attemptFails w law a")
    case True
    from tryAttempt_fails[OF True]
    obtain err where e: "tryAttempt w law a (st\<lparr> trace := trace st @ [Attempt a] \<rparr>) = Inl err"
      by blast
    let ?st = "if a < maxRetries opts
               then st\<lparr> trace := trace st @ [Attempt a, Delay (backoff a)] \<rparr>
               else st\<lparr> trace := trace st @ [Attempt a] \<rparr>"
    have step: "retryLoop opts w law b a le rc st = retryLoop opts w law b (a + 1) (Some err) a ?st"
      using e am by (subst retryLoop.simps) simp
    have same: "outputDir ?st = outputDir st" "counters ?st = counters st"
      by simp_all
    have n: "n = Suc (maxRetries opts) - (a + 1)" using Suc.hyps(2) by simp
    from Suc.hyps(1)[OF n, of "Some err" a ?st] show ?thesis
      unfolding step same .
  next
    case False
    from tryAttempt_succeeds[OF False, of "st\<lparr> trace := trace st @ [Attempt a] \<rparr>"]
    obtain scraped where s: "isComplete scraped" "length (fullText scraped) > 50"
      "tryAttempt w law a (st\<lparr> trace := trace st @ [Attempt a] \<rparr>)
         = Inr (st\<lparr> trace := trace st @ [Attempt a],
                     outputDir := (outputDir st)(extractLawId (link law) \<mapsto> scraped),
                     counters := (counters st)\<lparr> successful := successful (counters st) + 1,
                                                 processed := processed (counters st) + 1 \<rparr>,
                     trace := trace st @ [Attempt a] @ [Saved (extractLawId (link law))] \<rparr>)"
      by auto
    have "retryLoop opts w law b a le rc st
            = st\<lparr> trace := trace st @ [Attempt a],
                    outputDir := (outputDir st)(extractLawId (link law) \<mapsto> scraped),
                    counters := (counters st)\<lparr> successful := successful (counters st) + 1,
                                                processed := processed (counters st) + 1 \<rparr>,
                    trace := trace st @ [Attempt a] @ [Saved (extractLawId (link law))] \<rparr>"
      using s(3) am by (subst retryLoop.simps) simp
    then show ?thesis using s(1,2) by auto
  qed
qed

lemma scrapeSingleLaw_skip:
  "outputDir st (extractLawId (link law)) \<noteq> None \<Longrightarrow>
   scrapeSingleLaw opts w b st law
     = st\<lparr> counters := (counters st)\<lparr> skipped := skipped (counters st) + 1 \<rparr>,
             trace := trace st @ [Skipped (extractLawId (link law))] \<rparr>"
  by (simp add: scrapeSingleLaw_def)

lemma scrapeSingleLaw_written:
  assumes "outputDir (scrapeSingleLaw opts w b st law) k = Some r" "outputDir st k \<noteq> Some r"
  shows "isComplete r \<and> length (fullText r) > 50"
proof (cases "outputDir st (extractLawId (link law)) \<noteq> None")
  case True
  with assms show ?thesis by (simp add: scrapeSingleLaw_skip)
next
  case False
  then have eq: "scrapeSingleLaw opts w b st law = retryLoop opts w law b 1 None 0 st"
    by (simp add: scrapeSingleLaw_def)
  from retryLoop_cases[of opts w law b 1 None 0 st] assms show ?thesis
    unfolding eq by (auto split: if_splits)
qed

lemma processNext_Cons:
  "processNext opts w b st (law # ls) = processNext opts w b (scrapeSingleLaw opts w b st law) ls"
  by (simp add: processNext_def)

lemma processNext_all_skipped:
  "\<forall>law \<in> set ls. outputDir st (extractLawId (link law)) \<noteq> None \<Longrightarrow>
   processNext opts w b st ls
     = st\<lparr> counters := (counters st)\<lparr> skipped := skipped (counters st) + length ls \<rparr>,
             trace := trace st @ map (\<lambda>law. Skipped (extractLawId (link law))) ls \<rparr>"
proof (induction ls arbitrary: st)
  case Nil
  then show ?case by (simp add: processNext_def)
next
  case (Cons law ls)
  let ?s1 = "st\<lparr> counters := (counters st)\<lparr> skipped := skipped (counters st) + 1 \<rparr>,
                  trace := trace st @ [Skipped (extractLawId (link law))] \<rparr>"
  from Cons.prems have 1: "scrapeSingleLaw opts w b st law = ?s1"
    by (simp add: scrapeSingleLaw_skip)
  from Cons.prems have "\<forall>x \<in> set ls. outputDir ?s1 (extractLawId (link x)) \<noteq> None"
    by simp
  from Cons.IH[OF this] show ?case
    by (simp add: processNext_Cons 1)
qed

lemma processNext_written:
  "outputDir (processNext opts w b st ls) k = Some r \<Longrightarrow> outputDir st k \<noteq> Some r
   \<Longrightarrow> isComplete r \<and> length (fullText r) > 50"
proof (induction ls arbitrary: st)
  case Nil
  then show ?case by (simp add: processNext_def)
next
  case (Cons law ls)
  let ?s1 = "scrapeSingleLaw opts w b st law"
  show ?case
  proof (cases "outputDir ?s1 k = Some r")
    case True
    then show ?thesis using Cons.prems(2) by (rule scrapeSingleLaw_written)
  next
    case False
    from Cons.prems(1) have "outputDir (processNext opts w b ?s1 ls) k = Some r"
      by (simp only: processNext_Cons)
    from Cons.IH[OF this False] show ?thesis .
  qed
qed

section \<open>The worker pool\<close>

subsection \<open>The schedule of one worker\<close>

lemma worker_retry:
  assumes "k < length (workers p)" and "workers p ! k = Working law a le rc"
  shows "(poolStep opts w b ls)\<^sup>*\<^sup>* p
           (p\<lparr> workers := (workers p)[k := Idle],
               shared := retryLoop opts w law b a le rc (shared p) \<rparr>)"
  using assms
proof (induction "Suc (maxRetries opts) - a" arbitrary: p a le rc)
  case 0
  then have gt: "maxRetries opts < a" by simp
  let ?newLog = "failures (shared p) @
                   [createFailedLaw (clock w) law
                      (case le of None \<Rightarrow> UnknownError | Some e \<Rightarrow> e) rc b]"
  let ?p1 = "p\<lparr> workers := (workers p)[k := Logging law ?newLog] \<rparr>"
  have one: "poolStep opts w b ls p ?p1"
    by (rule poolStep.exhausted[OF "0.prems" gt])
  have k1: "k < length (workers ?p1)" using "0.prems"(1) by simp
  have w1: "workers ?p1 ! k = Logging law ?newLog" using "0.prems"(1) by simp
  from poolStep.logged[OF k1 w1, of opts w b ls]
  have two: "poolStep opts w b ls ?p1
          (p\<lparr> workers := (workers p)[k := Idle],
              shared := retryLoop opts w law b a le rc (shared p) \<rparr>)"
    by (simp add: retryLoop_exhausted[OF gt])
  from one two show ?case by (simp add: converse_rtranclp_into_rtranclp)
next
  case (Suc n)
  then have am: "a \<le> maxRetries opts" by simp
  let ?s = "(shared p)\<lparr> trace := trace (shared p) @ [Attempt a] \<rparr>"
  show ?case
  proof (cases "tryAttempt w law a ?s")
    case (Inr st')
    have "retryLoop opts w law b a le rc (shared p) = st'"
      using Inr am by (subst retryLoop.simps) simp
    with poolStep.attemptSaved[OF Suc.prems am Inr, of b ls] show ?thesis
      by (simp add: r_into_rtranclp)
  next
    case (Inl err)
    let ?next = "if a < maxRetries opts
                 then (shared p)\<lparr> trace := trace (shared p) @ [Attempt a, Delay (backoff a)] \<rparr>
                 else (shared p)\<lparr> trace := trace (shared p) @ [Attempt a] \<rparr>"
    let ?p1 = "p\<lparr> workers := (workers p)[k := Working law (a + 1) (Some err) a], shared := ?next \<rparr>"
    have step: "poolStep opts w b ls p ?p1"
      by (rule poolStep.attemptFailed[OF Suc.prems am Inl])
    have n: "n = Suc (maxRetries opts) - (a + 1)" using Suc.hyps(2) by simp
    have k1: "k < length (workers ?p1)" using Suc.prems(1) by simp
    have w1: "workers ?p1 ! k = Working law (a + 1) (Some err) a"
      using Suc.prems(1) by simp
    have loop: "retryLoop opts w law b a le rc (shared p)
                  = retryLoop opts w law b (a + 1) (Some err) a ?next"
      using Inl am by (subst retryLoop.simps) simp
    have "(poolStep opts w b ls)\<^sup>*\<^sup>* ?p1
            (?p1\<lparr> workers := (workers ?p1)[k := Idle],
                  shared := retryLoop opts w law b (a + 1) (Some err) a (shared ?p1) \<rparr>)"
      by (rule Suc.hyps(1)[OF n k1 w1])
    then have "(poolStep opts w b ls)\<^sup>*\<^sup>* ?p1
            (p\<lparr> workers := (workers p)[k := Idle],
                shared := retryLoop opts w law b a le rc (shared p) \<rparr>)"
      by (simp add: loop)
    with step show ?thesis
      by (rule converse_rtranclp_into_rtranclp)
  qed
qed

lemma worker_item:
  assumes "k < length (workers p)" and "workers p ! k = Idle" and "cursor p < length ls"
  shows "(poolStep opts w b ls)\<^sup>*\<^sup>* p
           (p\<lparr> cursor := cursor p + 1,
               shared := scrapeSingleLaw opts w b (shared p) (ls ! cursor p) \<rparr>)"
proof (cases "outputDir (shared p) (extractLawId (link (ls ! cursor p))) = None")
  case False
  then have "poolStep opts w b ls p
          (p\<lparr> cursor := cursor p + 1,
              shared := scrapeSingleLaw opts w b (shared p) (ls ! cursor p) \<rparr>)"
    by (intro poolStep.claimSkip[OF assms])
  then show ?thesis by (rule r_into_rtranclp)
next
  case True
  let ?law = "ls ! cursor p"
  let ?p1 = "p\<lparr> cursor := cursor p + 1, workers := (workers p)[k := Working ?law 1 None 0] \<rparr>"
  have step: "poolStep opts w b ls p ?p1"
    by (rule poolStep.claimStart[OF assms True])
  have k1: "k < length (workers ?p1)" using assms(1) by simp
  have w1: "workers ?p1 ! k = Working ?law 1 None 0" using assms(1) by simp
  have idle: "(workers p)[k := Idle] = workers p"
    using assms(2) by (metis list_update_id)
  have "(poolStep opts w b ls)\<^sup>*\<^sup>* ?p1
          (?p1\<lparr> workers := (workers ?p1)[k := Idle],
                shared := retryLoop opts w ?law b 1 None 0 (shared ?p1) \<rparr>)"
    by (rule worker_retry[OF k1 w1])
  then have "(poolStep opts w b ls)\<^sup>*\<^sup>* ?p1
          (p\<lparr> cursor := cursor p + 1,
              shared := scrapeSingleLaw opts w b (shared p) ?law \<rparr>)"
    using True by (simp add: scrapeSingleLaw_def idle)
  with step show ?thesis
    by (rule converse_rtranclp_into_rtranclp)
qed

lemma worker_all:
  assumes "k < length (workers p)" and "workers p ! k = Idle" and "cursor p \<le> length ls"
  shows "(poolStep opts w b ls)\<^sup>*\<^sup>* p
           (p\<lparr> cursor := length ls,
               shared := processNext opts w b (shared p) (drop (cursor p) ls) \<rparr>)"
  using assms
proof (induction "length ls - cursor p" arbitrary: p)
  case 0
  then have "length ls = cursor p" by simp
  then show ?case by (simp add: processNext_def)
next
  case (Suc n)
  then have lt: "cursor p < length ls" by simp
  let ?p1 = "p\<lparr> cursor := cursor p + 1,
                 shared := scrapeSingleLaw opts w b (shared p) (ls ! cursor p) \<rparr>"
  have one: "(poolStep opts w b ls)\<^sup>*\<^sup>* p ?p1"
    by (rule worker_item[OF Suc.prems(1,2) lt])
  have n: "n = length ls - cursor ?p1" using Suc.hyps(2) by simp
  have "(poolStep opts w b ls)\<^sup>*\<^sup>* ?p1
          (?p1\<lparr> cursor := length ls,
                shared := processNext opts w b (shared ?p1) (drop (cursor ?p1) ls) \<rparr>)"
    using Suc.prems lt by (intro Suc.hyps(1)[OF n]) simp_all
  moreover have "drop (cursor p) ls = ls ! cursor p # drop (Suc (cursor p)) ls"
    using lt by (simp add: Cons_nth_drop_Suc)
  ultimately have "(poolStep opts w b ls)\<^sup>*\<^sup>* ?p1
          (p\<lparr> cursor := length ls,
              shared := processNext opts w b (shared p) (drop (cursor p) ls) \<rparr>)"
    by (simp add: processNext_Cons)
  with one show ?case by (rule rtranclp_trans)
qed

lemma finish_all:
  assumes "length ls \<le> cursor p" and "workers p = replicate j Finished @ replicate m Idle"
  shows "(poolStep opts w b ls)\<^sup>*\<^sup>* p (p\<lparr> workers := replicate (j + m) Finished \<rparr>)"
  using assms
proof (induction m arbitrary: p j)
  case 0
  then have "p\<lparr> workers := replicate (j + 0) Finished \<rparr> = p" by simp
  then show ?case by simp
next
  case (Suc m)
  let ?p1 = "p\<lparr> workers := (workers p)[j := Finished] \<rparr>"
  have kj: "j < length (workers p)" and wj: "workers p ! j = Idle"
    using Suc.prems(2) by (simp_all add: nth_append)
  have step: "poolStep opts w b ls p ?p1"
    by (rule poolStep.finish[OF kj wj Suc.prems(1)])
  have "(workers p)[j := Finished] = replicate j Finished @ Finished # replicate m Idle"
    using Suc.prems(2) by (simp add: list_update_append)
  then have w1: "workers ?p1 = replicate (Suc j) Finished @ replicate m Idle"
    by (simp add: replicate_append_same)
  have c1: "length ls \<le> cursor ?p1" using Suc.prems(1) by simp
  from Suc.IH[OF c1 w1] have "(poolStep opts w b ls)\<^sup>*\<^sup>* ?p1
      (p\<lparr> workers := replicate (j + Suc m) Finished \<rparr>)"
    by simp
  with step show ?case by (rule converse_rtranclp_into_rtranclp)
qed

lemma sequential_run:
  "processLawsWithConcurrency opts w b ls st (processLaws opts w b st ls)"
proof (cases "concurrency opts = 0")
  case True
  have "(poolStep opts w b ls)\<^sup>*\<^sup>* (startPool opts st) (startPool opts st)" by simp
  moreover have "list_all (\<lambda>x. x = Finished) (workers (startPool opts st))"
    using True by (simp add: startPool_def)
  ultimately have "processLawsWithConcurrency opts w b ls st (shared (startPool opts st))"
    by (rule processLawsWithConcurrency.allFinished)
  then show ?thesis using True by (simp add: startPool_def processLaws_def)
next
  case False
  let ?p0 = "startPool opts st"
  let ?p1 = "?p0\<lparr> cursor := length ls, shared := processNext opts w b st ls \<rparr>"
  let ?p2 = "?p1\<lparr> workers := replicate (concurrency opts) Finished \<rparr>"
  have "(poolStep opts w b ls)\<^sup>*\<^sup>* ?p0
          (?p0\<lparr> cursor := length ls,
                shared := processNext opts w b (shared ?p0) (drop (cursor ?p0) ls) \<rparr>)"
    using False by (intro worker_all[where k = 0]) (simp_all add: startPool_def)
  then have a: "(poolStep opts w b ls)\<^sup>*\<^sup>* ?p0 ?p1"
    by (simp add: startPool_def)
  have "(poolStep opts w b ls)\<^sup>*\<^sup>* ?p1 (?p1\<lparr> workers := replicate (0 + concurrency opts) Finished \<rparr>)"
    by (rule finish_all) (simp_all add: startPool_def)
  then have b: "(poolStep opts w b ls)\<^sup>*\<^sup>* ?p1 ?p2" by simp
  from a b have "(poolStep opts w b ls)\<^sup>*\<^sup>* ?p0 ?p2" by (rule rtranclp_trans)
  moreover have "list_all (\<lambda>x. x = Finished) (workers ?p2)"
    by (simp add: list_all_iff)
  ultimately have "processLawsWithConcurrency opts w b ls st (shared ?p2)"
    by (rule processLawsWithConcurrency.allFinished)
  then show ?thesis using False by (simp add: processLaws_def)
qed

subsection \<open>What every step of the pool preserves\<close>

lemma tryAttempt_Inr:
  assumes "tryAttempt w law a s = Inr st'"
  shows "\<exists>scraped. isComplete scraped \<and> length (fullText scraped) > 50
           \<and> st' = s\<lparr> outputDir := (outputDir s)(extractLawId (link law) \<mapsto> scraped),
                       counters := (counters s)\<lparr> successful := successful (counters s) + 1,
                                                  processed := processed (counters s) + 1 \<rparr>,
                       trace := trace s @ [Saved (extractLawId (link law))] \<rparr>"
proof (cases "attemptFails w law a")
  case True
  from tryAttempt_fails[OF this, of s] assms show ?thesis by auto
next
  case False
  from tryAttempt_succeeds[OF this, of s] assms show ?thesis by auto
qed

lemma step_cursor:
  assumes "poolStep opts w b ls p q"
  shows "cursor p \<le> cursor q \<and> (cursor p \<le> length ls \<longrightarrow> cursor q \<le> length ls)
         \<and> length (workers q) = length (workers p)"
  using assms by (cases rule: poolStep.cases) simp_all

lemma step_finished:
  assumes "poolStep opts w b ls p q"
    and "Finished \<in> set (workers p) \<longrightarrow> length ls \<le> cursor p"
  shows "Finished \<in> set (workers q) \<longrightarrow> length ls \<le> cursor q"
  using assms
proof (cases rule: poolStep.cases)
  case (claimStart k)
  have "set ((workers p)[k := Working (ls ! cursor p) 1 None 0])
          \<subseteq> insert (Working (ls ! cursor p) 1 None 0) (set (workers p))"
    by (rule set_update_subset_insert)
  with claimStart assms(2) show ?thesis by auto
next
  case (attemptSaved k law a lastError retries st')
  have "set ((workers p)[k := Idle]) \<subseteq> insert Idle (set (workers p))"
    by (rule set_update_subset_insert)
  with attemptSaved assms(2) show ?thesis by auto
next
  case (attemptFailed k law a lastError retries err)
  have "set ((workers p)[k := Working law (a + 1) (Some err) a])
          \<subseteq> insert (Working law (a + 1) (Some err) a) (set (workers p))"
    by (rule set_update_subset_insert)
  with attemptFailed assms(2) show ?thesis by auto
next
  case (exhausted k law a lastError retries)
  let ?x = "Logging law (failures (shared p) @
              [createFailedLaw (clock w) law
                 (case lastError of None \<Rightarrow> UnknownError | Some e \<Rightarrow> e) retries b])"
  have "set ((workers p)[k := ?x]) \<subseteq> insert ?x (set (workers p))"
    by (rule set_update_subset_insert)
  with exhausted assms(2) show ?thesis by auto
next
  case (logged k law newLog)
  have "set ((workers p)[k := Idle]) \<subseteq> insert Idle (set (workers p))"
    by (rule set_update_subset_insert)
  with logged assms(2) show ?thesis by auto
qed simp_all

lemma step_written:
  assumes "poolStep opts w b ls p q" and "outputDir (shared q) x = Some r"
  shows "outputDir (shared p) x = Some r \<or> (isComplete r \<and> length (fullText r) > 50)"
  using assms
proof (cases rule: poolStep.cases)
  case (claimSkip k)
  with assms(2) show ?thesis by (simp add: scrapeSingleLaw_skip)
next
  case (attemptSaved k law a lastError retries st')
  from tryAttempt_Inr[OF attemptSaved(5)] obtain scraped where
    c: "isComplete scraped" "length (fullText scraped) > 50"
    and d: "outputDir st' = (outputDir (shared p))(extractLawId (link law) \<mapsto> scraped)"
    by auto
  from assms(2) attemptSaved(1) d
  have "((outputDir (shared p))(extractLawId (link law) \<mapsto> scraped)) x = Some r" by simp
  with c show ?thesis by (cases "x = extractLawId (link law)") simp_all
next
  case (attemptFailed k law a lastError retries err)
  with assms(2) show ?thesis by (simp split: if_splits)
qed (use assms(2) in simp_all)

lemma step_keeps:
  assumes "poolStep opts w b ls p q"
  shows "failed (counters (shared p)) \<le> failed (counters (shared q))
         \<and> (outputDir (shared p) x \<noteq> None \<longrightarrow> outputDir (shared q) x \<noteq> None)"
  using assms
proof (cases rule: poolStep.cases)
  case (claimSkip k)
  then show ?thesis by (simp add: scrapeSingleLaw_skip)
next
  case (attemptSaved k law a lastError retries st')
  from tryAttempt_Inr[OF attemptSaved(5)] obtain scraped where
    "outputDir st' = (outputDir (shared p))(extractLawId (link law) \<mapsto> scraped)"
    "counters st' = (counters (shared p))\<lparr> successful := successful (counters (shared p)) + 1,
                                            processed := processed (counters (shared p)) + 1 \<rparr>"
    by auto
  with attemptSaved(1) show ?thesis by simp
qed simp_all

lemma step_item:
  assumes "poolStep opts w b ls p q"
    and "outputDir (shared p) x \<noteq> None
         \<or> (\<exists>j law. j < length (workers p) \<and> held (workers p ! j) = Some law
                \<and> extractLawId (link law) = x)
         \<or> F < failed (counters (shared p))"
    and "F \<le> failed (counters (shared p))"
  shows "outputDir (shared q) x \<noteq> None
         \<or> (\<exists>j law. j < length (workers q) \<and> held (workers q ! j) = Some law
                \<and> extractLawId (link law) = x)
         \<or> F < failed (counters (shared q))"
proof -
  from step_keeps[OF assms(1), of x]
  have keep: "failed (counters (shared p)) \<le> failed (counters (shared q))"
             "outputDir (shared p) x \<noteq> None \<Longrightarrow> outputDir (shared q) x \<noteq> None"
    by simp_all
  consider (written) "outputDir (shared p) x \<noteq> None"
    | (work) j law where "j < length (workers p)" "held (workers p ! j) = Some law"
        "extractLawId (link law) = x"
    | (fail) "F < failed (counters (shared p))"
    using assms(2) by blast
  then show ?thesis
  proof cases
    case written
    then show ?thesis using keep by simp
  next
    case fail
    then show ?thesis using keep by simp
  next
    case work
    have other: ?thesis
      if "workers q = (workers p)[k := v]" and "j \<noteq> k" for k v
    proof -
      from that work have "j < length (workers q)" "held (workers q ! j) = Some law"
        by simp_all
      with work(3) show ?thesis by blast
    qed
    have same: ?thesis
      if "workers q = (workers p)[k := v]" and "held v = Some law" for k v
    proof (cases "j = k")
      case True
      with that work have "j < length (workers q)" "held (workers q ! j) = Some law"
        by simp_all
      with work(3) show ?thesis by blast
    next
      case False
      with that(1) show ?thesis by (rule other)
    qed
    from assms(1) show ?thesis
    proof (cases rule: poolStep.cases)
      case (claimSkip k)
      with work show ?thesis by auto
    next
      case (claimStart k)
      with work have "j \<noteq> k" by auto
      with claimStart(1) show ?thesis by (intro other[of k]) simp_all
    next
      case (attemptSaved k law' a' lastError retries st')
      show ?thesis
      proof (cases "j = k")
        case True
        with work attemptSaved have "law' = law" by simp
        moreover from tryAttempt_Inr[OF attemptSaved(5)] obtain scraped where
          "outputDir st' = (outputDir (shared p))(extractLawId (link law') \<mapsto> scraped)"
          by auto
        ultimately have "outputDir (shared q) x \<noteq> None"
          using attemptSaved(1) work(3) by simp
        then show ?thesis by simp
      next
        case False
        with attemptSaved(1) show ?thesis by (intro other[of k]) simp_all
      qed
    next
      case (attemptFailed k law' a' lastError retries err)
      show ?thesis
      proof (cases "j = k")
        case True
        with work attemptFailed have "law' = law" by simp
        with attemptFailed(1) show ?thesis by (intro same[of k]) (simp, simp)
      next
        case False
        with attemptFailed(1) show ?thesis by (intro other[of k]) simp_all
      qed
    next
      case (exhausted k law' a' lastError retries)
      show ?thesis
      proof (cases "j = k")
        case True
        with work exhausted have "law' = law" by simp
        with exhausted(1) show ?thesis by (intro same[of k]) (simp, simp)
      next
        case False
        with exhausted(1) show ?thesis by (intro other[of k]) simp_all
      qed
    next
      case (logged k law' newLog)
      show ?thesis
      proof (cases "j = k")
        case True
        have "failed (counters (shared q)) = failed (counters (shared p)) + 1"
          using logged(1) by simp
        with assms(3) show ?thesis by simp
      next
        case False
        with logged(1) show ?thesis by (intro other[of k]) simp_all
      qed
    next
      case (finish k)
      with work have "j \<noteq> k" by auto
      with finish(1) show ?thesis by (intro other[of k]) simp_all
    qed
  qed
qed

subsection \<open>What holds after every schedule\<close>

lemma run_written:
  assumes "(poolStep opts w b ls)\<^sup>*\<^sup>* p q"
  shows "outputDir (shared q) x = Some r \<longrightarrow>
           outputDir (shared p) x = Some r \<or> (isComplete r \<and> length (fullText r) > 50)"
  using assms
proof (induction rule: rtranclp_induct)
  case base
  show ?case by simp
next
  case (step q q')
  from step_written[OF step.hyps(2)] step.IH show ?case by blast
qed

lemma run_invariant:
  assumes "(poolStep opts w b ls)\<^sup>*\<^sup>* (startPool opts st) p"
  shows "cursor p \<le> length ls \<and> length (workers p) = concurrency opts
         \<and> (Finished \<in> set (workers p) \<longrightarrow> length ls \<le> cursor p)
         \<and> failed (counters st) \<le> failed (counters (shared p))
         \<and> (\<forall>i < cursor p.
               outputDir (shared p) (extractLawId (link (ls ! i))) \<noteq> None
               \<or> (\<exists>j law. j < length (workers p) \<and> held (workers p ! j) = Some law
                      \<and> extractLawId (link law) = extractLawId (link (ls ! i)))
               \<or> failed (counters st) < failed (counters (shared p)))"
  using assms
proof (induction rule: rtranclp_induct)
  case base
  show ?case by (simp add: startPool_def)
next
  case (step p q)
  note s = step.hyps(2)
  note c = step.IH[THEN conjunct1]
  note l = step.IH[THEN conjunct2, THEN conjunct1]
  note f = step.IH[THEN conjunct2, THEN conjunct2, THEN conjunct1]
  note e = step.IH[THEN conjunct2, THEN conjunct2, THEN conjunct2, THEN conjunct1]
  note i = step.IH[THEN conjunct2, THEN conjunct2, THEN conjunct2, THEN conjunct2, rule_format]
  from step_cursor[OF s] c l
  have c': "cursor q \<le> length ls" and l': "length (workers q) = concurrency opts"
    by simp_all
  from step_finished[OF s f]
  have f': "Finished \<in> set (workers q) \<longrightarrow> length ls \<le> cursor q" .
  from step_keeps[OF s, THEN conjunct1] e
  have e': "failed (counters st) \<le> failed (counters (shared q))" by (rule order_trans[rotated])
  have i': "outputDir (shared q) (extractLawId (link (ls ! n))) \<noteq> None
            \<or> (\<exists>j law. j < length (workers q) \<and> held (workers q ! j) = Some law
                   \<and> extractLawId (link law) = extractLawId (link (ls ! n)))
            \<or> failed (counters st) < failed (counters (shared q))"
    if n: "n < cursor q" for n
  proof (cases "n < cursor p")
    case True
    from step_item[OF s i[OF True] e] show ?thesis .
  next
    case False
    from s show ?thesis
    proof (cases rule: poolStep.cases)
      case (claimSkip k)
      with False n have "n = cursor p" by simp
      with claimSkip show ?thesis by (simp add: scrapeSingleLaw_skip)
    next
      case (claimStart k)
      with False n have "n = cursor p" by simp
      moreover from claimStart
      have "k < length (workers q)" "held (workers q ! k) = Some (ls ! cursor p)"
        by simp_all
      ultimately show ?thesis by blast
    qed (use False n in simp_all)
  qed
  from c' l' f' e' i' show ?case by blast
qed

lemma run_without_failure:
  assumes run: "processLawsWithConcurrency opts w b ls st st'"
    and conc: "1 \<le> concurrency opts"
    and nofail: "failed (counters st') = failed (counters st)"
  shows "\<forall>law \<in> set ls. outputDir st' (extractLawId (link law)) \<noteq> None"
proof
  fix law assume "law \<in> set ls"
  then obtain n where n: "n < length ls" "ls ! n = law"
    by (auto simp: in_set_conv_nth)
  from run obtain p where p: "(poolStep opts w b ls)\<^sup>*\<^sup>* (startPool opts st) p"
    and fin: "list_all (\<lambda>x. x = Finished) (workers p)" and st': "st' = shared p"
    by (auto elim: processLawsWithConcurrency.cases)
  note inv = run_invariant[OF p]
  note c = inv[THEN conjunct1]
  note l = inv[THEN conjunct2, THEN conjunct1]
  note f = inv[THEN conjunct2, THEN conjunct2, THEN conjunct1]
  note i = inv[THEN conjunct2, THEN conjunct2, THEN conjunct2, THEN conjunct2, rule_format]
  from l conc have "workers p \<noteq> []" by auto
  with fin have "Finished \<in> set (workers p)"
    by (cases "workers p") simp_all
  with f c have "cursor p = length ls" by simp
  with n have "n < cursor p" by simp
  note i[OF this]
  moreover
  have "\<not> (\<exists>j law. j < length (workers p) \<and> held (workers p ! j) = Some law
              \<and> extractLawId (link law) = extractLawId (link (ls ! n)))"
    using fin by (auto simp: list_all_length)
  moreover have "\<not> failed (counters st) < failed (counters (shared p))"
    using nofail st' by simp
  ultimately have "outputDir (shared p) (extractLawId (link (ls ! n))) \<noteq> None"
    by blast
  then show "outputDir st' (extractLawId (link law)) \<noteq> None"
    using n st' by simp
qed

lemma skip_invariant:
  assumes files: "\<forall>law \<in> set ls. outputDir st (extractLawId (link law)) \<noteq> None"
    and run: "(poolStep opts w b ls)\<^sup>*\<^sup>* (startPool opts st) p"
  shows "cursor p \<le> length ls
         \<and> (\<forall>x \<in> set (workers p). x = Idle \<or> x = Finished)
         \<and> shared p = st\<lparr> counters := (counters st)\<lparr> skipped := skipped (counters st) + cursor p \<rparr>,
                            trace := trace st @ map (\<lambda>law. Skipped (extractLawId (link law)))
                                                (take (cursor p) ls) \<rparr>"
  using run
proof (induction rule: rtranclp_induct)
  case base
  show ?case by (simp add: startPool_def)
next
  case (step p q)
  from step.IH have c: "cursor p \<le> length ls"
    and ws: "\<forall>x \<in> set (workers p). x = Idle \<or> x = Finished"
    and sh: "shared p = st\<lparr> counters := (counters st)\<lparr> skipped := skipped (counters st) + cursor p \<rparr>,
                            trace := trace st @ map (\<lambda>law. Skipped (extractLawId (link law)))
                                                (take (cursor p) ls) \<rparr>"
    by simp_all
  have dir: "outputDir (shared p) = outputDir st" by (subst sh) simp
  have notHeld: "held (workers p ! k) = None" if "k < length (workers p)" for k
    using ws that by (metis nth_mem held.simps(3) held.simps(4))
  from step.hyps(2) show ?case
  proof (cases rule: poolStep.cases)
    case (claimSkip k)
    have "shared q = (shared p)\<lparr> counters := (counters (shared p))
                                   \<lparr> skipped := skipped (counters (shared p)) + 1 \<rparr>,
                                 trace := trace (shared p)
                                   @ [Skipped (extractLawId (link (ls ! cursor p)))] \<rparr>"
      using claimSkip by (simp add: scrapeSingleLaw_skip)
    also have "\<dots> = st\<lparr> counters := (counters st)\<lparr> skipped := skipped (counters st) + cursor q \<rparr>,
                         trace := trace st @ map (\<lambda>law. Skipped (extractLawId (link law)))
                                             (take (cursor q) ls) \<rparr>"
      using claimSkip by (subst sh)+ (simp add: take_Suc_conv_app_nth)
    finally show ?thesis using claimSkip ws by simp
  next
    case (claimStart k)
    then have "ls ! cursor p \<in> set ls" by simp
    with files have "outputDir st (extractLawId (link (ls ! cursor p))) \<noteq> None" by blast
    with dir claimStart(5) show ?thesis by simp
  next
    case (attemptSaved k law a lastError retries st')
    with notHeld[of k] show ?thesis by simp
  next
    case (attemptFailed k law a lastError retries err)
    with notHeld[of k] show ?thesis by simp
  next
    case (exhausted k law a lastError retries)
    with notHeld[of k] show ?thesis by simp
  next
    case (logged k law newLog)
    with notHeld[of k] show ?thesis by simp
  next
    case (finish k)
    have "set ((workers p)[k := Finished]) \<subseteq> insert Finished (set (workers p))"
      by (rule set_update_subset_insert)
    with finish c ws sh show ?thesis by auto
  qed
qed

lemma run_all_skipped:
  assumes conc: "1 \<le> concurrency opts"
    and files: "\<forall>law \<in> set ls. outputDir st (extractLawId (link law)) \<noteq> None"
    and run: "processLawsWithConcurrency opts w b ls st st'"
  shows "st' = st\<lparr> counters := (counters st)\<lparr> skipped := skipped (counters st) + length ls \<rparr>,
                    trace := trace st @ map (\<lambda>law. Skipped (extractLawId (link law))) ls \<rparr>"
proof -
  from run obtain p where p: "(poolStep opts w b ls)\<^sup>*\<^sup>* (startPool opts st) p"
    and fin: "list_all (\<lambda>x. x = Finished) (workers p)" and st': "st' = shared p"
    by (auto elim: processLawsWithConcurrency.cases)
  from run_invariant[OF p] conc have "workers p \<noteq> []" by auto
  with fin have "Finished \<in> set (workers p)"
    by (cases "workers p") simp_all
  with run_invariant[OF p] have "cursor p = length ls" by simp
  with skip_invariant[OF files p] st' show ?thesis by simp
qed

lemma run_exists_all_skipped:
  assumes conc: "1 \<le> concurrency opts"
    and files: "\<forall>law \<in> set ls. outputDir st (extractLawId (link law)) \<noteq> None"
  shows "processLawsWithConcurrency opts w b ls st
           (st\<lparr> counters := (counters st)\<lparr> skipped := skipped (counters st) + length ls \<rparr>,
                trace := trace st @ map (\<lambda>law. Skipped (extractLawId (link law))) ls \<rparr>)"
proof -
  have "processLaws opts w b st ls
          = st\<lparr> counters := (counters st)\<lparr> skipped := skipped (counters st) + length ls \<rparr>,
                 trace := trace st @ map (\<lambda>law. Skipped (extractLawId (link law))) ls \<rparr>"
    using conc processNext_all_skipped[OF files, of opts w b] by (simp add: processLaws_def)
  with sequential_run[of opts w b ls st] show ?thesis by simp
qed

lemma run_records_complete:
  assumes "processLawsWithConcurrency opts w b ls st st'"
    and "outputDir st' k = Some r" and "outputDir st k \<noteq> Some r"
  shows "isComplete r \<and> length (fullText r) > 50"
proof -
  from assms(1) obtain p where p: "(poolStep opts w b ls)\<^sup>*\<^sup>* (startPool opts st) p"
    and st': "st' = shared p"
    by (auto elim: processLawsWithConcurrency.cases)
  from run_written[OF p, of k r] assms(2,3) st' show ?thesis
    by (simp add: startPool_def)
qed
subsection \<open>Sample runs\<close>

lemma sampleRecord_props:
  "isComplete sampleRecord" "lawId sampleRecord = Some (str ''166100'')"
  "length (fullText sampleRecord) = 100"
  by (simp_all add: sampleRecord_def createScrapedLaw_def sampleData_def truthy_def orEmpty_def
        sample_nonempty sample_length sampleLaw_id)

lemma working_attempt:
  "tryAttempt workingWorld sampleLaw (Suc 0) st
     = Inr (st\<lparr> outputDir := (outputDir st)(Some (str ''166100'') \<mapsto> sampleRecord),
                 counters := (counters st)\<lparr> successful := successful (counters st) + 1,
                                             processed := processed (counters st) + 1 \<rparr>,
                 trace := trace st @ [Saved (Some (str ''166100''))] \<rparr>)"
  by (simp add: tryAttempt_def workingWorld_def Let_def sampleRecord_def[symmetric]
        sampleRecord_props)

lemma working_item:
  assumes "outputDir st (Some (str ''166100'')) = None"
  shows "scrapeSingleLaw defaultOptions workingWorld b st sampleLaw
           = st\<lparr> outputDir := (outputDir st)(Some (str ''166100'') \<mapsto> sampleRecord),
                   counters := (counters st)\<lparr> successful := successful (counters st) + 1,
                                               processed := processed (counters st) + 1 \<rparr>,
                   trace := trace st @ [Attempt 1, Saved (Some (str ''166100''))] \<rparr>"
proof -
  have "retryLoop defaultOptions workingWorld sampleLaw b (Suc 0) None 0 st
          = st\<lparr> outputDir := (outputDir st)(Some (str ''166100'') \<mapsto> sampleRecord),
                  counters := (counters st)\<lparr> successful := successful (counters st) + 1,
                                              processed := processed (counters st) + 1 \<rparr>,
                  trace := trace st @ [Attempt 1, Saved (Some (str ''166100''))] \<rparr>"
    by (subst retryLoop.simps) (simp add: working_attempt defaultOptions_def)
  with assms show ?thesis
    by (simp add: scrapeSingleLaw_def sampleLaw_id)
qed

lemma retryLoop_all_fail:
  assumes "\<forall>i. attemptFails w law i"
  shows "outputDir (retryLoop opts w law b a le rc st) = outputDir st
         \<and> counters (retryLoop opts w law b a le rc st)
             = (counters st)\<lparr> failed := failed (counters st) + 1,
                               processed := processed (counters st) + 1 \<rparr>"
proof (induction "Suc (maxRetries opts) - a" arbitrary: a le rc st)
  case 0
  then have "maxRetries opts < a" by simp
  then show ?case by (simp add: retryLoop_exhausted)
next
  case (Suc n)
  then have am: "a \<le> maxRetries opts" by simp
  from assms have "attemptFails w law a" by simp
  from tryAttempt_fails[OF this]
  obtain err where e: "tryAttempt w law a (st\<lparr> trace := trace st @ [Attempt a] \<rparr>) = Inl err"
    by blast
  let ?st = "if a < maxRetries opts
             then st\<lparr> trace := trace st @ [Attempt a, Delay (backoff a)] \<rparr>
             else st\<lparr> trace := trace st @ [Attempt a] \<rparr>"
  have step: "retryLoop opts w law b a le rc st = retryLoop opts w law b (a + 1) (Some err) a ?st"
    using e am by (subst retryLoop.simps) simp
  have same: "outputDir ?st = outputDir st" "counters ?st = counters st"
    by simp_all
  have n: "n = Suc (maxRetries opts) - (a + 1)" using Suc.hyps(2) by simp
  from Suc.hyps(1)[OF n, of "Some err" a ?st] show ?case
    unfolding step same .
qed

lemma failing_item:
  assumes "outputDir st (Some (str ''166100'')) = None"
  shows "outputDir (scrapeSingleLaw defaultOptions failingWorld b st sampleLaw) = outputDir st
         \<and> counters (scrapeSingleLaw defaultOptions failingWorld b st sampleLaw)
             = (counters st)\<lparr> failed := failed (counters st) + 1,
                               processed := processed (counters st) + 1 \<rparr>"
proof -
  have "\<forall>i. attemptFails failingWorld sampleLaw i"
    by (simp add: attemptFails_def failingWorld_def)
  from retryLoop_all_fail[OF this] assms show ?thesis
    by (simp add: scrapeSingleLaw_def sampleLaw_id)
qed

lemma default_concurrency: "concurrency defaultOptions = 3"
  by (simp add: defaultOptions_def)

lemma afterFirstRun_result:
  "afterFirstRun
     = \<lparr> counters = \<lparr> processed = 1, successful = 1, failed = 0, skipped = 0 \<rparr>,
         outputDir = [Some (str ''166100'') \<mapsto> sampleRecord],
         failures = [],
         trace = [Attempt 1, Saved (Some (str ''166100''))] \<rparr>"
  by (simp add: afterFirstRun_def processLaws_def processNext_def default_concurrency
        working_item freshState_def)

lemma afterFailedRun_result:
  "outputDir afterFailedRun = Map.empty"
  "counters afterFailedRun = \<lparr> processed = 1, successful = 0, failed = 1, skipped = 0 \<rparr>"
  by (simp_all add: afterFailedRun_def processLaws_def processNext_def default_concurrency
        failing_item freshState_def)

lemma afterSecondRun_result:
  "counters afterSecondRun = \<lparr> processed = 1, successful = 1, failed = 0, skipped = 0 \<rparr>"
  by (simp add: afterSecondRun_def processLaws_def processNext_def default_concurrency
        afterFailedRun_result working_item freshState_def)

lemma tryAttempt_insufficient:
  assumes "page w law a = Extracted sd"
    and "\<not> isComplete (createScrapedLaw (clock w) law (sd\<lparr> sd_retryCount := Some (a - 1) \<rparr>))"
  shows "tryAttempt w law a st
           = Inl (InsufficientContent
                   (textLength (createScrapedLaw (clock w) law (sd\<lparr> sd_retryCount := Some (a - 1) \<rparr>))))"
  using assms by (simp add: tryAttempt_def Let_def)

subsection \<open>Persisted records\<close>

text \<open>
  C10.  Every record that a run of the scheduler puts into the output directory is
  complete, with a text longer than 50 code units, for every number of workers and
  every interleaving of them: an attempt whose record is not complete ends in the
  \<open>catch\<close> before the file is written (\<open>tryAttempt_insufficient\<close>).  The run in which
  one worker does all the work, \<open>processLaws\<close>, is one of these runs
  (\<open>sequential_run\<close>).
\<close>

theorem persisted_records_complete:
  assumes "processLawsWithConcurrency opts w batchId ls st st'"
    and "outputDir st' k = Some r"
    and "outputDir st k \<noteq> Some r"
  shows "isComplete r \<and> length (fullText r) > 50"
  using assms by (rule run_records_complete)

theorem persisted_records_complete_witness:
  "processLawsWithConcurrency defaultOptions workingWorld (str ''batch'') [sampleLaw]
     (freshState Map.empty []) afterFirstRun
   \<and> outputDir afterFirstRun (Some (str ''166100'')) = Some sampleRecord
   \<and> outputDir (freshState Map.empty []) (Some (str ''166100'')) \<noteq> Some sampleRecord
   \<and> isComplete sampleRecord \<and> length (fullText sampleRecord) > 50"
proof -
  have h1: "processLawsWithConcurrency defaultOptions workingWorld (str ''batch'') [sampleLaw]
              (freshState Map.empty []) afterFirstRun"
    unfolding afterFirstRun_def by (rule sequential_run)
  have h2: "outputDir afterFirstRun (Some (str ''166100'')) = Some sampleRecord"
    by (simp add: afterFirstRun_result)
  have h3: "outputDir (freshState Map.empty []) (Some (str ''166100'')) \<noteq> Some sampleRecord"
    by (simp add: freshState_def)
  from persisted_records_complete[OF h1 h2 h3] h1 h2 h3 show ?thesis by simp
qed

subsection \<open>Resume\<close>

text \<open>
  C9.  An item whose output file exists when a worker claims it is skipped: the skipped
  counter grows by one and nothing else changes but the record of the skip, so no
  attempt is made.  With at least one worker, a run over a worklist of which every item
  has its output file ends, under every interleaving of the workers, in the state in
  which every item has been skipped and nothing else has changed, and such a run
  exists.  With at least one worker, after a first run during which no item failed
  every item has its output file; so a second run, of a new scraper over the directory
  that the first run left and whatever the site then answers, makes no successful
  scrape, skips every item and leaves the directory as it was.
\<close>

theorem resume_skips_existing:
  "(outputDir st (extractLawId (link law)) \<noteq> None \<longrightarrow>
      scrapeSingleLaw opts w batchId st law
        = st\<lparr> counters := (counters st)\<lparr> skipped := skipped (counters st) + 1 \<rparr>,
                trace := trace st @ [Skipped (extractLawId (link law))] \<rparr>)
   \<and> (1 \<le> concurrency opts
        \<and> (\<forall>law \<in> set ls. outputDir st (extractLawId (link law)) \<noteq> None) \<longrightarrow>
      processLawsWithConcurrency opts w batchId ls st
        (st\<lparr> counters := (counters st)\<lparr> skipped := skipped (counters st) + length ls \<rparr>,
             trace := trace st @ map (\<lambda>law. Skipped (extractLawId (link law))) ls \<rparr>)
      \<and> (\<forall>st'. processLawsWithConcurrency opts w batchId ls st st' \<longrightarrow>
            st' = st\<lparr> counters := (counters st)\<lparr> skipped := skipped (counters st) + length ls \<rparr>,
                       trace := trace st @ map (\<lambda>law. Skipped (extractLawId (link law))) ls \<rparr>))
   \<and> (1 \<le> concurrency opts
        \<and> processLawsWithConcurrency opts wFirst batchId ls st stFirst
        \<and> failed (counters stFirst) = failed (counters st) \<longrightarrow>
      (\<forall>law \<in> set ls. outputDir stFirst (extractLawId (link law)) \<noteq> None)
      \<and> (\<exists>stSecond. processLawsWithConcurrency opts wSecond batchId ls
                  (freshState (outputDir stFirst) (failures stFirst)) stSecond)
      \<and> (\<forall>stSecond. processLawsWithConcurrency opts wSecond batchId ls
                  (freshState (outputDir stFirst) (failures stFirst)) stSecond \<longrightarrow>
            successful (counters stSecond) = 0 \<and> skipped (counters stSecond) = length ls
            \<and> outputDir stSecond = outputDir stFirst))"
proof (intro conjI impI allI)
  assume "outputDir st (extractLawId (link law)) \<noteq> None"
  then show "scrapeSingleLaw opts w batchId st law
        = st\<lparr> counters := (counters st)\<lparr> skipped := skipped (counters st) + 1 \<rparr>,
                trace := trace st @ [Skipped (extractLawId (link law))] \<rparr>"
    by (rule scrapeSingleLaw_skip)
next
  assume "1 \<le> concurrency opts
            \<and> (\<forall>law \<in> set ls. outputDir st (extractLawId (link law)) \<noteq> None)"
  then show "processLawsWithConcurrency opts w batchId ls st
        (st\<lparr> counters := (counters st)\<lparr> skipped := skipped (counters st) + length ls \<rparr>,
             trace := trace st @ map (\<lambda>law. Skipped (extractLawId (link law))) ls \<rparr>)"
    by (intro run_exists_all_skipped) simp_all
next
  fix st'
  assume "1 \<le> concurrency opts
            \<and> (\<forall>law \<in> set ls. outputDir st (extractLawId (link law)) \<noteq> None)"
    and "processLawsWithConcurrency opts w batchId ls st st'"
  then show "st' = st\<lparr> counters := (counters st)\<lparr> skipped := skipped (counters st) + length ls \<rparr>,
                       trace := trace st @ map (\<lambda>law. Skipped (extractLawId (link law))) ls \<rparr>"
    by (intro run_all_skipped[of opts ls st w batchId st']) simp_all
next
  assume h: "1 \<le> concurrency opts
        \<and> processLawsWithConcurrency opts wFirst batchId ls st stFirst
        \<and> failed (counters stFirst) = failed (counters st)"
  then show "\<forall>law \<in> set ls. outputDir stFirst (extractLawId (link law)) \<noteq> None"
    by (intro run_without_failure[of opts wFirst batchId ls st stFirst]) simp_all
next
  assume h: "1 \<le> concurrency opts
        \<and> processLawsWithConcurrency opts wFirst batchId ls st stFirst
        \<and> failed (counters stFirst) = failed (counters st)"
  show "\<exists>stSecond. processLawsWithConcurrency opts wSecond batchId ls
                  (freshState (outputDir stFirst) (failures stFirst)) stSecond"
    using sequential_run by blast
next
  fix stSecond
  assume h: "1 \<le> concurrency opts
        \<and> processLawsWithConcurrency opts wFirst batchId ls st stFirst
        \<and> failed (counters stFirst) = failed (counters st)"
    and r2: "processLawsWithConcurrency opts wSecond batchId ls
               (freshState (outputDir stFirst) (failures stFirst)) stSecond"
  from h have "\<forall>law \<in> set ls. outputDir stFirst (extractLawId (link law)) \<noteq> None"
    by (intro run_without_failure[of opts wFirst batchId ls st stFirst]) simp_all
  then have files: "\<forall>law \<in> set ls.
      outputDir (freshState (outputDir stFirst) (failures stFirst)) (extractLawId (link law)) \<noteq> None"
    by (simp add: freshState_def)
  from h have conc: "1 \<le> concurrency opts" by simp
  from run_all_skipped[OF conc files r2]
  show "successful (counters stSecond) = 0" "skipped (counters stSecond) = length ls"
    "outputDir stSecond = outputDir stFirst"
    by (simp_all add: freshState_def)
qed

theorem resume_skips_existing_witness:
  "outputDir scrapedState (extractLawId (link sampleLaw)) \<noteq> None
   \<and> scrapeSingleLaw defaultOptions workingWorld (str ''batch'') scrapedState sampleLaw
       = scrapedState\<lparr> counters := \<lparr> processed = 0, successful = 0, failed = 0, skipped = 1 \<rparr>,
                       trace := [Skipped (Some (str ''166100''))] \<rparr>
   \<and> 1 \<le> concurrency defaultOptions
   \<and> processLawsWithConcurrency defaultOptions workingWorld (str ''batch'') [sampleLaw] scrapedState
        (scrapedState\<lparr> counters := \<lparr> processed = 0, successful = 0, failed = 0, skipped = 1 \<rparr>,
                       trace := [Skipped (Some (str ''166100''))] \<rparr>)
   \<and> processLawsWithConcurrency defaultOptions workingWorld (str ''batch'') [sampleLaw]
        (freshState Map.empty []) afterFirstRun
   \<and> failed (counters afterFirstRun) = failed (counters (freshState Map.empty []))
   \<and> freshState (outputDir afterFirstRun) (failures afterFirstRun) = scrapedState
   \<and> outputDir afterFirstRun (extractLawId (link sampleLaw)) \<noteq> None
   \<and> (\<exists>stSecond. processLawsWithConcurrency defaultOptions failingWorld (str ''batch'') [sampleLaw]
               scrapedState stSecond
             \<and> successful (counters stSecond) = 0 \<and> skipped (counters stSecond) = 1
             \<and> outputDir stSecond = outputDir afterFirstRun)"
proof -
  have h1: "outputDir scrapedState (extractLawId (link sampleLaw)) \<noteq> None"
    by (simp add: scrapedState_def freshState_def sampleLaw_id)
  have h2: "1 \<le> concurrency defaultOptions"
    by (simp add: default_concurrency)
  have h3: "\<forall>law \<in> set [sampleLaw]. outputDir scrapedState (extractLawId (link law)) \<noteq> None"
    using h1 by simp
  have h4: "processLawsWithConcurrency defaultOptions workingWorld (str ''batch'') [sampleLaw]
              (freshState Map.empty []) afterFirstRun"
    unfolding afterFirstRun_def by (rule sequential_run)
  have h5: "failed (counters afterFirstRun) = failed (counters (freshState Map.empty []))"
    by (simp add: afterFirstRun_result freshState_def)
  have h6: "freshState (outputDir afterFirstRun) (failures afterFirstRun) = scrapedState"
    by (simp add: afterFirstRun_result scrapedState_def)
  note t = resume_skips_existing[where st = scrapedState and law = sampleLaw
              and opts = defaultOptions and w = workingWorld and batchId = "str ''batch''"
              and ls = "[sampleLaw]"]
  from t[THEN conjunct1] h1
  have a: "scrapeSingleLaw defaultOptions workingWorld (str ''batch'') scrapedState sampleLaw
       = scrapedState\<lparr> counters := \<lparr> processed = 0, successful = 0, failed = 0, skipped = 1 \<rparr>,
                       trace := [Skipped (Some (str ''166100''))] \<rparr>"
    by (simp add: scrapedState_def freshState_def sampleLaw_id)
  from t[THEN conjunct2, THEN conjunct1] h2 h3
  have b: "processLawsWithConcurrency defaultOptions workingWorld (str ''batch'') [sampleLaw] scrapedState
        (scrapedState\<lparr> counters := \<lparr> processed = 0, successful = 0, failed = 0, skipped = 1 \<rparr>,
                       trace := [Skipped (Some (str ''166100''))] \<rparr>)"
    by (simp add: scrapedState_def freshState_def sampleLaw_id)
  note u = resume_skips_existing[where opts = defaultOptions and wFirst = workingWorld
              and wSecond = failingWorld and batchId = "str ''batch''" and ls = "[sampleLaw]"
              and st = "freshState Map.empty []" and stFirst = afterFirstRun,
              THEN conjunct2, THEN conjunct2, rule_format, OF conjI[OF h2 conjI[OF h4 h5]]]
  from u have c: "outputDir afterFirstRun (extractLawId (link sampleLaw)) \<noteq> None"
    by simp
  from u obtain stSecond where r2: "processLawsWithConcurrency defaultOptions failingWorld (str ''batch'')
      [sampleLaw] (freshState (outputDir afterFirstRun) (failures afterFirstRun)) stSecond"
    by blast
  with u have "successful (counters stSecond) = 0 \<and> skipped (counters stSecond) = length [sampleLaw]
      \<and> outputDir stSecond = outputDir afterFirstRun"
    by blast
  with r2 have d: "\<exists>stSecond. processLawsWithConcurrency defaultOptions failingWorld (str ''batch'')
               [sampleLaw] scrapedState stSecond
             \<and> successful (counters stSecond) = 0 \<and> skipped (counters stSecond) = 1
             \<and> outputDir stSecond = outputDir afterFirstRun"
    unfolding h6 by auto
  from h1 a h2 b h4 h5 h6 c d show ?thesis by blast
qed

text \<open>
  Without these conditions the second run need not skip.  After a first run in which
  every attempt timed out the directory is empty as before, and a second run in which
  the site answers scrapes the item.  And a scraper configured with no worker claims
  nothing: its run over a directory that holds the record of the item ends in the state
  in which it started, with no item skipped.
\<close>

theorem resume_second_run_counterexample:
  "processLawsWithConcurrency defaultOptions failingWorld (str ''batch'') [sampleLaw]
     (freshState Map.empty []) afterFailedRun
   \<and> outputDir afterFailedRun = Map.empty
   \<and> failed (counters afterFailedRun) = 1
   \<and> processLawsWithConcurrency defaultOptions workingWorld (str ''batch'') [sampleLaw]
       (freshState (outputDir afterFailedRun) (failures afterFailedRun)) afterSecondRun
   \<and> successful (counters afterSecondRun) = 1
   \<and> skipped (counters afterSecondRun) = 0
   \<and> outputDir scrapedState (extractLawId (link sampleLaw)) \<noteq> None
   \<and> processLawsWithConcurrency (defaultOptions\<lparr> concurrency := 0 \<rparr>) workingWorld (str ''batch'')
       [sampleLaw] scrapedState scrapedState
   \<and> skipped (counters scrapedState) = 0"
proof -
  have a: "processLawsWithConcurrency defaultOptions failingWorld (str ''batch'') [sampleLaw]
             (freshState Map.empty []) afterFailedRun"
    unfolding afterFailedRun_def by (rule sequential_run)
  have b: "processLawsWithConcurrency defaultOptions workingWorld (str ''batch'') [sampleLaw]
             (freshState (outputDir afterFailedRun) (failures afterFailedRun)) afterSecondRun"
    unfolding afterSecondRun_def by (rule sequential_run)
  have "processLaws (defaultOptions\<lparr> concurrency := 0 \<rparr>) workingWorld (str ''batch'')
          scrapedState [sampleLaw] = scrapedState"
    by (simp add: processLaws_def)
  with sequential_run[of "defaultOptions\<lparr> concurrency := 0 \<rparr>" workingWorld "str ''batch''"
         "[sampleLaw]" scrapedState]
  have c: "processLawsWithConcurrency (defaultOptions\<lparr> concurrency := 0 \<rparr>) workingWorld
             (str ''batch'') [sampleLaw] scrapedState scrapedState"
    by simp
  have d: "outputDir scrapedState (extractLawId (link sampleLaw)) \<noteq> None"
    "skipped (counters scrapedState) = 0"
    by (simp_all add: scrapedState_def freshState_def sampleLaw_id)
  from a b c d show ?thesis
    by (simp add: afterFailedRun_result afterSecondRun_result)
qed
section \<open>The result aggregator: one corrupt file\<close>

lemma processFile_total:
  "a_total (snd (foldl (processFile parse) (found, st) fs))
     = a_total st + length (filter (\<lambda>f. parse (snd f) \<noteq> None) fs)"
proof (induction fs arbitrary: found st)
  case Nil
  show ?case by simp
next
  case (Cons f fs)
  obtain found' st' where p: "processFile parse (found, st) f = (found', st')"
    by (cases "processFile parse (found, st) f")
  have "a_total st' = a_total st + (if parse (snd f) \<noteq> None then 1 else 0)"
    using p by (auto simp: processFile_def split: option.splits jsonValue.splits if_splits)
  with Cons.IH[of found' st'] p show ?case by simp
qed

lemma finishStats_keeps:
  "a_total (finishStats st) = a_total st"
  "a_withErrors (finishStats st) = a_withErrors st"
  "a_successful (finishStats st) = a_successful st"
  by (simp_all add: finishStats_def)

lemma aggregate_total:
  assumes "aggregate parse parseLog dirExists files failedLog = Inr res"
  shows "totalScrapedLaws (agg_metadata res)
           = length (filter (\<lambda>f. parse (snd f) \<noteq> None) (lawFiles files))"
proof -
  let ?acc = "foldl (processFile parse) ([], initialStats) (lawFiles files)"
  from assms have "totalScrapedLaws (agg_metadata res) = a_total (finishStats (snd ?acc))"
    unfolding aggregate_def Let_def
    by (auto simp: case_prod_beta split: if_splits option.splits)
  also have "\<dots> = a_total (snd ?acc)" by (simp add: finishStats_keeps)
  also have "\<dots> = length (filter (\<lambda>f. parse (snd f) \<noteq> None) (lawFiles files))"
    using processFile_total[of parse "[]" initialStats "lawFiles files"]
    by (simp add: initialStats_def)
  finally show ?thesis .
qed

lemma sampleDirectory_lawFiles: "lawFiles sampleDirectory = sampleDirectory"
  by (simp add: lawFiles_def sampleDirectory_def endsWith_def str_def)

lemma sampleRecord_counted: "isComplete sampleRecord \<and> textLength sampleRecord > 50"
  by (simp add: sampleRecord_def createScrapedLaw_def sampleData_def truthy_def orEmpty_def
        sample_nonempty sample_length)

lemma sampleDirectory_fold:
  "foldl (processFile (\<lambda>c. c)) ([], initialStats) sampleDirectory
     = (List.map_filter snd sampleDirectory,
        initialStats\<lparr> a_total := 9, a_successful := 9, a_withErrors := 1,
                      a_totalTextLength := 9 * textLength sampleRecord,
                      a_minTextLength := Some (textLength sampleRecord),
                      a_maxTextLength := textLength sampleRecord \<rparr>)"
  by (simp add: sampleDirectory_def processFile_def initialStats_def sampleRecord_counted
        List.map_filter_simps)

text \<open>
  C4.  Over the sample directory, ten files of which nine parse to complete records
  and one does not parse, with no failure log, the aggregation returns, the nine
  records are in \<open>scrapedLaws\<close> and one error is counted, as the specification says;
  but the reported total, \<open>totalScrapedLaws\<close>, is 9 and not 10: \<open>stats.total++\<close> stands
  after \<open>JSON.parse\<close> inside the \<open>try\<close>, so a file that does not parse is counted as
  an error without being counted in the total (\<open>aggregate_total\<close>: the total is the
  number of files that parse, for every directory).
\<close>

theorem aggregate_total_skips_corrupt_file:
  "length (lawFiles sampleDirectory) = 10
   \<and> length (filter (\<lambda>f. snd f = None) (lawFiles sampleDirectory)) = 1
   \<and> (\<exists>res. aggregate (\<lambda>c. c) (\<lambda>c. None) True sampleDirectory None = Inr res
         \<and> totalScrapedLaws (agg_metadata res) = 9
         \<and> successfulLaws (agg_metadata res) = 9
         \<and> errorLaws (agg_metadata res) = 1
         \<and> length (scrapedLaws res) = 9
         \<and> mset (scrapedLaws res) = mset (List.map_filter snd sampleDirectory))"
proof -
  have a: "length (lawFiles sampleDirectory) = 10"
    "length (filter (\<lambda>f. snd f = None) (lawFiles sampleDirectory)) = 1"
    unfolding sampleDirectory_lawFiles by (simp_all add: sampleDirectory_def)
  have n: "JNull \<notin> set (List.map_filter snd sampleDirectory)"
    "length (List.map_filter snd sampleDirectory) = 9"
    by (simp_all add: sampleDirectory_def List.map_filter_simps)
  let ?st = "finishStats (initialStats\<lparr> a_total := 9, a_successful := 9, a_withErrors := 1,
                      a_totalTextLength := 9 * textLength sampleRecord,
                      a_minTextLength := Some (textLength sampleRecord),
                      a_maxTextLength := textLength sampleRecord \<rparr>)"
  let ?res = "\<lparr> agg_metadata =
                  \<lparr> totalScrapedLaws = a_total ?st, successfulLaws = a_successful ?st,
                    errorLaws = a_withErrors ?st, failedLawsCount = length ([] :: failedLaw list),
                    statistics = ?st \<rparr>,
                scrapedLaws = newestFirst (List.map_filter snd sampleDirectory),
                failedLaws = [] \<rparr>"
  have r: "aggregate (\<lambda>c. c) (\<lambda>c. None) True sampleDirectory None = Inr ?res"
    unfolding aggregate_def sampleDirectory_lawFiles sampleDirectory_fold Let_def
    using n(1) by simp
  have "totalScrapedLaws (agg_metadata ?res) = 9" "successfulLaws (agg_metadata ?res) = 9"
    "errorLaws (agg_metadata ?res) = 1"
    by (simp_all add: finishStats_keeps)
  moreover have "length (scrapedLaws ?res) = 9"
    "mset (scrapedLaws ?res) = mset (List.map_filter snd sampleDirectory)"
    using n(2) by (simp_all add: newestFirst_def)
  ultimately show ?thesis using a r by blast
qed
end
